theory Spec2Isabelle
  imports Main
begin

section \<open>Data model\<close>

text \<open>
  The program is a single Python script, \<^verbatim>\<open>app.py\<close>. Its own functions are embedded below;
  the libraries it calls (the Hugging Face hub, feedparser, trafilatura, the T5 model,
  requests) are parameters of the model, collected in the record \<open>world\<close>.

  A value of type \<open>exn\<close> is an instance of Python's class \<^verbatim>\<open>Exception\<close>, the class that
  every handler of the script names (\<^verbatim>\<open>except Exception as e\<close>); the string is its text.
  The interpreter's exit signals, which are outside that class, are not part of the model.
\<close>

datatype exn = Exception string

text \<open>
  An entry and a feed as feedparser delivers them. An attribute that the feed did not
  provide is \<open>None\<close>; reading it raises \<^verbatim>\<open>AttributeError\<close>. The script reads only
  \<^verbatim>\<open>entry.link\<close>, \<^verbatim>\<open>entry.title\<close>, \<^verbatim>\<open>feed.feed.title\<close> and \<^verbatim>\<open>feed.entries\<close>;
  \<open>published\<close> is the publication time of the article, which the script never reads.
\<close>

record entry =
  link :: "string option"
  title :: "string option"
  published :: nat

record feed =
  feed_title :: "string option"
  entries :: "entry list"

text \<open>
  \<^verbatim>\<open>message_to_send\<close> is an f-string that interpolates four values into a fixed template
  (source, title, summary, link); the model keeps the four values.
\<close>

record message =
  msg_source :: string
  msg_title :: string
  msg_summary :: string
  msg_link :: string

record response =
  status_code :: nat
  json :: "exn + string"

text \<open>
  The calls that leave the process, in the order they are made. \<open>Logged e\<close> is the line
  that an \<^verbatim>\<open>except\<close> handler prints for the exception it caught; the other \<^verbatim>\<open>print\<close> calls
  are not modelled, and \<^verbatim>\<open>print\<close> and \<^verbatim>\<open>time.sleep\<close> are taken not to raise.
\<close>

datatype event =
    Download
  | Upload string
  | Parse string
  | FetchUrl string
  | Extract string
  | Generate string
  | Post message
  | Logged exn
  | Sleep nat

text \<open>
  The state: the calls made so far, the content of \<^verbatim>\<open>seen_links.txt\<close> in the dataset
  repository (\<open>None\<close> while the file does not exist), and the two local variables of
  \<^verbatim>\<open>run_pipeline\<close>.
\<close>

record state =
  trace :: "event list"
  remote :: "string option"
  seen_articles :: "string set"
  new_links_added :: bool

text \<open>
  The libraries. Each answer may depend on the moment of the call (the number of calls
  made before it), so that the same request can succeed once and fail later.
  \<open>hub_error\<close> is the exception, if any, with which a request to the hub made at that
  moment fails (the network, the token, the local copy of the file);
  \<open>iteration\<close> is the order in which Python iterates over a set.
\<close>

record world =
  hub_error :: "nat \<Rightarrow> exn option"
  iteration :: "string set \<Rightarrow> string list"
  feedparser_parse :: "nat \<Rightarrow> string \<Rightarrow> exn + feed"
  trafilatura_fetch_url :: "nat \<Rightarrow> string \<Rightarrow> exn + string option"
  trafilatura_extract :: "nat \<Rightarrow> string \<Rightarrow> exn + string option"
  model_generate :: "nat \<Rightarrow> string \<Rightarrow> exn + string"
  requests_post :: "nat \<Rightarrow> message \<Rightarrow> exn + response"

datatype 'a result = Return 'a state | Raise exn state

fun final_state :: "'a result \<Rightarrow> state" where
  "final_state (Return v s) = s"
| "final_state (Raise e s) = s"

fun and_then :: "'a result \<Rightarrow> ('a \<Rightarrow> state \<Rightarrow> 'b result) \<Rightarrow> 'b result" where
  "and_then (Return v s) f = f v s"
| "and_then (Raise e s) f = Raise e s"

fun try_except :: "'a result \<Rightarrow> (exn \<Rightarrow> state \<Rightarrow> 'a result) \<Rightarrow> 'a result" where
  "try_except (Return v s) h = Return v s"
| "try_except (Raise e s) h = h e s"

definition emit :: "event \<Rightarrow> state \<Rightarrow> state" where
  "emit ev s = s\<lparr>trace := trace s @ [ev]\<rparr>"

definition now :: "state \<Rightarrow> nat" where
  "now s = length (trace s)"

definition call :: "event \<Rightarrow> (nat \<Rightarrow> exn + 'a) \<Rightarrow> state \<Rightarrow> 'a result" where
  "call ev f s = (case f (now s) of Inl e \<Rightarrow> Raise e (emit ev s) | Inr v \<Rightarrow> Return v (emit ev s))"

definition log_error :: "exn \<Rightarrow> state \<Rightarrow> state" where
  "log_error e s = emit (Logged e) s"

section \<open>Settings\<close>

definition RSS_URLS :: "string list" where
  "RSS_URLS =
    [''https://www.news18.com/rss/india.xml'',
     ''https://feeds.feedburner.com/NDTV-Latest'',
     ''https://www.hindustantimes.com/feeds/rss/latest-news/rssfeed.xml'',
     ''https://www.thehindu.com/news/national/?service=rss'']"

section \<open>Text files\<close>

text \<open>
  Characters are code points below 256. \<open>isspace\<close> is Python's \<^verbatim>\<open>str.isspace\<close> on that
  range, \<open>strip\<close> is \<^verbatim>\<open>str.strip()\<close>. A file opened with \<^verbatim>\<open>open(path, 'r')\<close> is read with
  universal newlines: \<^verbatim>\<open>\r\n\<close> and \<^verbatim>\<open>\r\<close> become \<^verbatim>\<open>\n\<close>, and iterating over it yields
  the lines, each with its terminator.
\<close>

definition LF :: char where
  "LF = CHR 0x0A"

definition CR :: char where
  "CR = CHR 0x0D"

definition isspace :: "char \<Rightarrow> bool" where
  "isspace c = (c \<in> set [CHR 0x09, CHR 0x0A, CHR 0x0B, CHR 0x0C, CHR 0x0D, CHR 0x1C,
                          CHR 0x1D, CHR 0x1E, CHR 0x1F, CHR 0x20, CHR 0x85, CHR 0xA0])"

definition strip :: "string \<Rightarrow> string" where
  "strip s = rev (dropWhile isspace (rev (dropWhile isspace s)))"

fun universal_newlines :: "string \<Rightarrow> string" where
  "universal_newlines [] = []"
| "universal_newlines [c] = (if c = CR then [LF] else [c])"
| "universal_newlines (c # d # cs) =
     (if c = CR then
        (if d = LF then LF # universal_newlines cs else LF # universal_newlines (d # cs))
      else c # universal_newlines (d # cs))"

fun file_lines :: "string \<Rightarrow> string list" where
  "file_lines [] = []"
| "file_lines (c # cs) =
     (if c = LF then [c] # file_lines cs
      else (case file_lines cs of [] \<Rightarrow> [[c]] | l # ls \<Rightarrow> (c # l) # ls))"

definition read_links :: "string \<Rightarrow> string set" where
  "read_links content = set (map strip (file_lines (universal_newlines content)))"

definition write_links :: "string list \<Rightarrow> string" where
  "write_links ls = concat (map (\<lambda>l. l @ [LF]) ls)"

section \<open>Database functions\<close>

definition hf_hub_download :: "world \<Rightarrow> state \<Rightarrow> string result" where
  "hf_hub_download w s =
     (case hub_error w (now s) of
        Some e \<Rightarrow> Raise e (emit Download s)
      | None \<Rightarrow>
         (case remote s of
            None \<Rightarrow> Raise (Exception ''EntryNotFoundError'') (emit Download s)
          | Some content \<Rightarrow> Return content (emit Download s)))"

definition upload_file :: "world \<Rightarrow> string \<Rightarrow> state \<Rightarrow> unit result" where
  "upload_file w content s =
     (case hub_error w (now s) of
        Some e \<Rightarrow> Raise e (emit (Upload content) s)
      | None \<Rightarrow> Return () ((emit (Upload content) s)\<lparr>remote := Some content\<rparr>))"

definition get_seen_links :: "world \<Rightarrow> state \<Rightarrow> (string set) result" where
  "get_seen_links w s =
     try_except
       (and_then (hf_hub_download w s) (\<lambda>content s1. Return (read_links content) s1))
       (\<lambda>e s1. Return {} (log_error e s1))"

definition update_seen_links :: "world \<Rightarrow> string set \<Rightarrow> state \<Rightarrow> unit result" where
  "update_seen_links w seen_links s =
     try_except
       (upload_file w (write_links (iteration w seen_links)) s)
       (\<lambda>e s1. Return () (log_error e s1))"

section \<open>Helper functions\<close>

definition truthy :: "string option \<Rightarrow> bool" where
  "truthy x = (case x of None \<Rightarrow> False | Some t \<Rightarrow> t \<noteq> [])"

definition scrape_article_text :: "world \<Rightarrow> string \<Rightarrow> state \<Rightarrow> (string option) result" where
  "scrape_article_text w url s =
     try_except
       (and_then (call (FetchUrl url) (\<lambda>t. trafilatura_fetch_url w t url) s)
          (\<lambda>downloaded s1.
             if truthy downloaded
             then call (Extract (the downloaded)) (\<lambda>t. trafilatura_extract w t (the downloaded)) s1
             else Return None s1))
       (\<lambda>e s1. Return None (log_error e s1))"

definition summarize_text :: "world \<Rightarrow> string option \<Rightarrow> state \<Rightarrow> string result" where
  "summarize_text w text s =
     (if \<not> truthy text then Return ''Could not generate summary (no text).'' s
      else call (Generate (''summarize: '' @ the text))
                (\<lambda>t. model_generate w t (''summarize: '' @ the text)) s)"

definition send_telegram_message :: "world \<Rightarrow> message \<Rightarrow> state \<Rightarrow> unit result" where
  "send_telegram_message w msg s =
     try_except
       (and_then (call (Post msg) (\<lambda>t. requests_post w t msg) s)
          (\<lambda>response s1.
             if status_code response = 200 then Return () s1
             else (case json response of Inl e \<Rightarrow> Raise e s1 | Inr body \<Rightarrow> Return () s1)))
       (\<lambda>e s1. Return () (log_error e s1))"

section \<open>The main pipeline\<close>

text \<open>
  \<open>process_entry\<close> is the body of \<^verbatim>\<open>if article_link not in seen_articles:\<close> up to the
  \<^verbatim>\<open>break\<close>. \<open>scan_entries\<close> is the inner loop \<^verbatim>\<open>for entry in reversed(feed.entries)\<close>,
  given the entries already reversed; the \<^verbatim>\<open>break\<close> is the absence of a recursive call.
\<close>

definition process_entry :: "world \<Rightarrow> feed \<Rightarrow> entry \<Rightarrow> string \<Rightarrow> state \<Rightarrow> unit result" where
  "process_entry w fd e article_link s =
     (case title e of
        None \<Rightarrow> Raise (Exception ''AttributeError: title'') s
      | Some entry_title \<Rightarrow>
          and_then (scrape_article_text w article_link s)
            (\<lambda>full_text s1.
               if truthy full_text then
                 and_then (summarize_text w full_text s1)
                   (\<lambda>summary s2.
                      case feed_title fd of
                        None \<Rightarrow> Raise (Exception ''AttributeError: title'') s2
                      | Some source_title \<Rightarrow>
                          and_then
                            (send_telegram_message w
                               \<lparr>msg_source = source_title, msg_title = entry_title,
                                msg_summary = summary, msg_link = article_link\<rparr> s2)
                            (\<lambda>u s3. Return ()
                               (s3\<lparr>seen_articles := insert article_link (seen_articles s3),
                                   new_links_added := True\<rparr>)))
               else Return () s1))"

fun scan_entries :: "world \<Rightarrow> feed \<Rightarrow> entry list \<Rightarrow> state \<Rightarrow> unit result" where
  "scan_entries w fd [] s = Return () s"
| "scan_entries w fd (e # es) s =
     (case link e of
        None \<Rightarrow> Raise (Exception ''AttributeError: link'') s
      | Some article_link \<Rightarrow>
          if article_link \<notin> seen_articles s then process_entry w fd e article_link s
          else scan_entries w fd es s)"

definition process_feed :: "world \<Rightarrow> string \<Rightarrow> state \<Rightarrow> unit result" where
  "process_feed w url s =
     and_then (call (Parse url) (\<lambda>t. feedparser_parse w t url) s)
       (\<lambda>fd s1. scan_entries w fd (rev (entries fd)) s1)"

fun check_feeds :: "world \<Rightarrow> string list \<Rightarrow> state \<Rightarrow> unit result" where
  "check_feeds w [] s = Return () s"
| "check_feeds w (url # urls) s = and_then (process_feed w url s) (\<lambda>u. check_feeds w urls)"

definition run_pipeline :: "world \<Rightarrow> state \<Rightarrow> unit result" where
  "run_pipeline w s =
     and_then (get_seen_links w s)
       (\<lambda>seen s1.
          and_then (check_feeds w RSS_URLS (s1\<lparr>seen_articles := seen, new_links_added := False\<rparr>))
            (\<lambda>u s2.
               if new_links_added s2 then update_seen_links w (seen_articles s2) s2
               else Return () s2))"

text \<open>
  \<^verbatim>\<open>background_task\<close> is \<^verbatim>\<open>while True\<close> around a \<^verbatim>\<open>try\<close>; \<open>loop_body\<close> is one turn of it,
  and \<open>background_task w n\<close> runs \<open>n\<close> turns. The loop has no \<^verbatim>\<open>break\<close> and no \<^verbatim>\<open>return\<close>:
  it ends only where a turn raises.
\<close>

definition sleep :: "nat \<Rightarrow> state \<Rightarrow> unit result" where
  "sleep n s = Return () (emit (Sleep n) s)"

definition loop_body :: "world \<Rightarrow> state \<Rightarrow> unit result" where
  "loop_body w s =
     try_except
       (and_then (run_pipeline w s) (\<lambda>u. sleep 1800))
       (\<lambda>e s1. sleep 60 (log_error e s1))"

fun background_task :: "world \<Rightarrow> nat \<Rightarrow> state \<Rightarrow> unit result" where
  "background_task w 0 s = Return () s"
| "background_task w (Suc n) s = and_then (loop_body w s) (\<lambda>u. background_task w n)"

section \<open>Observations on a trace\<close>

fun posts :: "event list \<Rightarrow> message list" where
  "posts [] = []"
| "posts (Post m # evs) = m # posts evs"
| "posts (ev # evs) = posts evs"

fun uploads :: "event list \<Rightarrow> string list" where
  "uploads [] = []"
| "uploads (Upload c # evs) = c # uploads evs"
| "uploads (ev # evs) = uploads evs"

fun fetches :: "event list \<Rightarrow> string list" where
  "fetches [] = []"
| "fetches (FetchUrl l # evs) = l # fetches evs"
| "fetches (ev # evs) = fetches evs"

fun generations :: "event list \<Rightarrow> string list" where
  "generations [] = []"
| "generations (Generate p # evs) = p # generations evs"
| "generations (ev # evs) = generations evs"

definition cycles_started :: "event list \<Rightarrow> nat" where
  "cycles_started tr = count_list tr Download"

definition since :: "state \<Rightarrow> state \<Rightarrow> event list" where
  "since s s' = drop (length (trace s)) (trace s')"

definition returned :: "'a result \<Rightarrow> 'a option" where
  "returned r = (case r of Return v s \<Rightarrow> Some v | Raise e s \<Rightarrow> None)"

section \<open>The foreground script\<close>

text \<open>
  The last lines of \<^verbatim>\<open>app.py\<close> start the background thread unless the key
  \<^verbatim>\<open>"bot_thread"\<close> is in \<^verbatim>\<open>st.session_state\<close>. Streamlit runs the script from top to bottom
  once for every browser session that connects to the process (every visitor, every tab,
  every reload of the page) and again at every rerun within that session, and it keeps one
  \<^verbatim>\<open>st.session_state\<close> dictionary for each session, empty when the session begins, whereas
  \<^verbatim>\<open>st.cache_resource\<close>, which the script uses for the model, is shared by the whole
  process. A process is therefore the
  threads started so far and one dictionary for each session; \<open>script_run\<close> is one run of
  the script on behalf of a session.
\<close>

record process =
  threads :: "nat list"
  session_state :: "nat \<Rightarrow> string \<rightharpoonup> nat"

definition process_start :: process where
  "process_start = \<lparr>threads = [], session_state = (\<lambda>session. Map.empty)\<rparr>"

definition script_run :: "nat \<Rightarrow> process \<Rightarrow> process" where
  "script_run session p =
     (if session_state p session ''bot_thread'' = None then
        (let thread = length (threads p) in
         p\<lparr>threads := threads p @ [thread],
           session_state := (session_state p)
              (session := (session_state p session)(''bot_thread'' \<mapsto> thread))\<rparr>)
      else p)"

section \<open>Predicates used in the statements\<close>

text \<open>The entries that the scan passes over: each has a link, and the link is in the seen set.\<close>

definition all_seen :: "state \<Rightarrow> entry list \<Rightarrow> bool" where
  "all_seen s es \<longleftrightarrow> (\<forall>x \<in> set es. \<exists>k. link x = Some k \<and> k \<in> seen_articles s)"

text \<open>
  What checking one feed does to the state, \<open>evs\<close> being the calls it makes; and what
  checking a list of feeds does.
\<close>

definition feed_step :: "state \<Rightarrow> state \<Rightarrow> event list \<Rightarrow> bool" where
  "feed_step s s' evs \<longleftrightarrow>
     trace s' = trace s @ evs \<and> remote s' = remote s \<and> uploads evs = [] \<and>
     cycles_started evs = 0 \<and>
     length (posts evs) \<le> 1 \<and> length (fetches evs) \<le> 1 \<and> length (generations evs) \<le> 1 \<and>
     seen_articles s' = seen_articles s \<union> msg_link ` set (posts evs) \<and>
     (\<forall>m \<in> set (posts evs). msg_link m \<notin> seen_articles s) \<and>
     new_links_added s' = (new_links_added s \<or> posts evs \<noteq> [])"

definition cycle_step :: "state \<Rightarrow> state \<Rightarrow> event list \<Rightarrow> bool" where
  "cycle_step s s' evs \<longleftrightarrow>
     trace s' = trace s @ evs \<and> remote s' = remote s \<and> uploads evs = [] \<and>
     cycles_started evs = 0 \<and>
     seen_articles s' = seen_articles s \<union> msg_link ` set (posts evs) \<and>
     distinct (map msg_link (posts evs)) \<and>
     (\<forall>m \<in> set (posts evs). msg_link m \<notin> seen_articles s) \<and>
     new_links_added s' = (new_links_added s \<or> posts evs \<noteq> [])"

text \<open>
  An identifier that survives the file format: \<^verbatim>\<open>strip()\<close> leaves it unchanged and it
  contains no line break.
\<close>

definition clean_identifier :: "string \<Rightarrow> bool" where
  "clean_identifier l \<longleftrightarrow> strip l = l \<and> LF \<notin> set l \<and> CR \<notin> set l"

section \<open>Concrete inputs\<close>

definition start :: state where
  "start = \<lparr>trace = [], remote = None, seen_articles = {}, new_links_added = False\<rparr>"

definition old_link :: string where
  "old_link = ''https://example.org/old''"

definition mid_link :: string where
  "mid_link = ''https://example.org/mid''"

definition new_link :: string where
  "new_link = ''https://example.org/new''"

definition entry_old :: entry where
  "entry_old = \<lparr>link = Some old_link, title = Some ''Old'', published = 1\<rparr>"

definition entry_mid :: entry where
  "entry_mid = \<lparr>link = Some mid_link, title = Some ''Mid'', published = 2\<rparr>"

definition entry_new :: entry where
  "entry_new = \<lparr>link = Some new_link, title = Some ''New'', published = 3\<rparr>"

definition newest_first_feed :: feed where
  "newest_first_feed = \<lparr>feed_title = Some ''Example'', entries = [entry_new, entry_mid, entry_old]\<rparr>"

definition oldest_first_feed :: feed where
  "oldest_first_feed = \<lparr>feed_title = Some ''Example'', entries = [entry_old, entry_mid, entry_new]\<rparr>"

definition empty_feed :: feed where
  "empty_feed = \<lparr>feed_title = Some ''Empty'', entries = []\<rparr>"

definition first_url :: string where
  "first_url = ''https://www.news18.com/rss/india.xml''"

text \<open>
  A world in which every library answers: the first configured feed is \<open>fd\<close>, the other
  three are empty, every page has text, the model summarizes, Telegram answers 200.
\<close>

definition demo_world :: "feed \<Rightarrow> world" where
  "demo_world fd =
     \<lparr>hub_error = (\<lambda>t. None),
      iteration = (\<lambda>S. filter (\<lambda>l. l \<in> S) [old_link, mid_link, new_link]),
      feedparser_parse = (\<lambda>t url. Inr (if url = first_url then fd else empty_feed)),
      trafilatura_fetch_url = (\<lambda>t url. Inr (Some ''<html>'')),
      trafilatura_extract = (\<lambda>t downloaded. Inr (Some ''text'')),
      model_generate = (\<lambda>t prompt. Inr ''summary''),
      requests_post = (\<lambda>t msg. Inr \<lparr>status_code = 200, json = Inr ''{}''\<rparr>)\<rparr>"

text \<open>Variations: every feed is the same feed; Telegram cannot be reached; the model fails;
  no page has text; an identifier with a leading blank.\<close>

definition shared_world :: world where
  "shared_world = (demo_world newest_first_feed)
     \<lparr>feedparser_parse := (\<lambda>t url. Inr newest_first_feed)\<rparr>"

definition offline_world :: world where
  "offline_world = (demo_world newest_first_feed)
     \<lparr>requests_post := (\<lambda>t msg. Inl (Exception ''ConnectionError''))\<rparr>"

definition broken_model_world :: world where
  "broken_model_world = (demo_world newest_first_feed)
     \<lparr>model_generate := (\<lambda>t prompt. Inl (Exception ''RuntimeError''))\<rparr>"

definition no_text_world :: world where
  "no_text_world = (demo_world newest_first_feed)
     \<lparr>trafilatura_extract := (\<lambda>t downloaded. Inr None)\<rparr>"

definition old_only_feed :: feed where
  "old_only_feed = \<lparr>feed_title = Some ''Example'', entries = [entry_old]\<rparr>"

definition seen_old :: state where
  "seen_old = start\<lparr>remote := Some (write_links [old_link])\<rparr>"

definition rerun :: state where
  "rerun = start\<lparr>seen_articles := {old_link}\<rparr>"

definition padded_link :: string where
  "padded_link = '' https://example.org/old''"

definition padded_world :: world where
  "padded_world = (demo_world empty_feed)
     \<lparr>iteration := (\<lambda>S. filter (\<lambda>l. l \<in> S) [padded_link])\<rparr>"

text \<open>An entry of the second feed has no title; the hub refuses every request.\<close>

definition untitled_feed :: feed where
  "untitled_feed =
     \<lparr>feed_title = Some ''Other'',
      entries = [\<lparr>link = Some new_link, title = None, published = 3\<rparr>]\<rparr>"

definition untitled_world :: world where
  "untitled_world = (demo_world newest_first_feed)
     \<lparr>feedparser_parse :=
        (\<lambda>t url. Inr (if url = first_url then newest_first_feed else untitled_feed))\<rparr>"


section \<open>What each function does to the state\<close>

lemma posts_append: "posts (xs @ ys) = posts xs @ posts ys"
  by (induction xs rule: posts.induct) simp_all

lemma uploads_append: "uploads (xs @ ys) = uploads xs @ uploads ys"
  by (induction xs rule: uploads.induct) simp_all

lemma fetches_append: "fetches (xs @ ys) = fetches xs @ fetches ys"
  by (induction xs rule: fetches.induct) simp_all

lemma generations_append: "generations (xs @ ys) = generations xs @ generations ys"
  by (induction xs rule: generations.induct) simp_all

lemma cycles_started_append: "cycles_started (xs @ ys) = cycles_started xs + cycles_started ys"
  by (induction xs) (simp_all add: cycles_started_def)

lemma cycles_started_simps:
  "cycles_started [] = 0"
  "cycles_started (Download # evs) = Suc (cycles_started evs)"
  "ev \<noteq> Download \<Longrightarrow> cycles_started (ev # evs) = cycles_started evs"
  by (simp_all add: cycles_started_def)

lemmas obs_append = posts_append uploads_append fetches_append generations_append
  cycles_started_append

lemma since_append: "trace s' = trace s @ evs \<Longrightarrow> since s s' = evs"
  by (simp add: since_def)

lemma since_grow: "since s (s\<lparr>trace := trace s @ evs\<rparr>) = evs"
  by (simp add: since_def)

lemma scrape_effect:
  "\<exists>v evs. scrape_article_text w url s = Return v (s\<lparr>trace := trace s @ evs\<rparr>) \<and>
     posts evs = [] \<and> uploads evs = [] \<and> generations evs = [] \<and> fetches evs = [url] \<and>
     cycles_started evs = 0"
  unfolding scrape_article_text_def call_def emit_def log_error_def
  by (auto split: sum.splits simp: cycles_started_simps)

lemma summarize_effect:
  "\<exists>evs. final_state (summarize_text w text s) = s\<lparr>trace := trace s @ evs\<rparr> \<and>
     posts evs = [] \<and> uploads evs = [] \<and> fetches evs = [] \<and> length (generations evs) \<le> 1 \<and>
     cycles_started evs = 0"
proof (cases "truthy text")
  case False
  then have "summarize_text w text s = Return ''Could not generate summary (no text).'' s"
    by (simp add: summarize_text_def)
  then show ?thesis by (intro exI[of _ "[]"]) (simp add: cycles_started_simps)
next
  case True
  then show ?thesis
    unfolding summarize_text_def call_def emit_def
    by (auto split: sum.splits simp: cycles_started_simps)
qed

lemma send_effect:
  "\<exists>evs. send_telegram_message w msg s = Return () (s\<lparr>trace := trace s @ evs\<rparr>) \<and>
     posts evs = [msg] \<and> uploads evs = [] \<and> fetches evs = [] \<and> generations evs = [] \<and>
     cycles_started evs = 0"
  unfolding send_telegram_message_def call_def emit_def log_error_def
  by (auto split: sum.splits simp: cycles_started_simps)

lemma feed_step_refl: "feed_step s s []"
  by (simp add: feed_step_def cycles_started_simps)

lemma process_entry_step:
  assumes unseen: "l \<notin> seen_articles s"
  shows "\<exists>evs. feed_step s (final_state (process_entry w fd e l s)) evs \<and>
           set (fetches evs) \<subseteq> {l} \<and> msg_link ` set (posts evs) \<subseteq> {l}"
proof (cases "title e")
  case None
  then have "process_entry w fd e l s = Raise (Exception ''AttributeError: title'') s"
    by (simp add: process_entry_def)
  then show ?thesis by (intro exI[of _ "[]"]) (simp add: feed_step_refl)
next
  case (Some t)
  note t = this
  obtain v evs1 where sc: "scrape_article_text w l s = Return v (s\<lparr>trace := trace s @ evs1\<rparr>)"
    and e1: "posts evs1 = []" "uploads evs1 = []" "generations evs1 = []" "fetches evs1 = [l]"
            "cycles_started evs1 = 0"
    using scrape_effect by blast
  let ?s1 = "s\<lparr>trace := trace s @ evs1\<rparr>"
  show ?thesis
  proof (cases "truthy v")
    case False
    with t sc have "process_entry w fd e l s = Return () ?s1" by (simp add: process_entry_def)
    moreover have "feed_step s ?s1 evs1" using e1 by (simp add: feed_step_def)
    ultimately show ?thesis using e1 by (intro exI[of _ evs1]) simp
  next
    case True
    note tr = this
    obtain evs2 where su: "final_state (summarize_text w v ?s1) = ?s1\<lparr>trace := trace ?s1 @ evs2\<rparr>"
      and e2: "posts evs2 = []" "uploads evs2 = []" "fetches evs2 = []" "length (generations evs2) \<le> 1"
              "cycles_started evs2 = 0"
      using summarize_effect by blast
    let ?s2 = "?s1\<lparr>trace := trace ?s1 @ evs2\<rparr>"
    have step2: "feed_step s ?s2 (evs1 @ evs2)"
      using e1 e2 by (simp add: feed_step_def obs_append)
    have obs2: "set (fetches (evs1 @ evs2)) \<subseteq> {l}" "msg_link ` set (posts (evs1 @ evs2)) \<subseteq> {l}"
      using e1 e2 by (simp_all add: obs_append)
    show ?thesis
    proof (cases "summarize_text w v ?s1")
      case (Raise ex s2')
      with su have "s2' = ?s2" by simp
      with Raise t sc tr have "process_entry w fd e l s = Raise ex ?s2"
        by (simp add: process_entry_def)
      with step2 obs2 show ?thesis by (intro exI[of _ "evs1 @ evs2"]) simp
    next
      case (Return summary s2')
      with su have s2': "s2' = ?s2" by simp
      show ?thesis
      proof (cases "feed_title fd")
        case None
        with Return s2' t sc tr
        have "process_entry w fd e l s = Raise (Exception ''AttributeError: title'') ?s2"
          by (simp add: process_entry_def)
        with step2 obs2 show ?thesis by (intro exI[of _ "evs1 @ evs2"]) simp
      next
        case (Some ft)
        let ?m = "\<lparr>msg_source = ft, msg_title = t, msg_summary = summary, msg_link = l\<rparr>"
        obtain evs3 where se: "send_telegram_message w ?m ?s2 = Return () (?s2\<lparr>trace := trace ?s2 @ evs3\<rparr>)"
          and e3: "posts evs3 = [?m]" "uploads evs3 = []" "fetches evs3 = []" "generations evs3 = []"
                  "cycles_started evs3 = 0"
          using send_effect by blast
        let ?s3 = "?s2\<lparr>trace := trace ?s2 @ evs3\<rparr>"
        let ?s4 = "?s3\<lparr>seen_articles := insert l (seen_articles ?s3), new_links_added := True\<rparr>"
        from Some Return s2' t sc tr se
        have "process_entry w fd e l s = Return () ?s4" by (simp add: process_entry_def)
        moreover have "feed_step s ?s4 (evs1 @ evs2 @ evs3)"
          using e1 e2 e3 unseen by (simp add: feed_step_def obs_append)
        moreover have "set (fetches (evs1 @ evs2 @ evs3)) \<subseteq> {l}"
              "msg_link ` set (posts (evs1 @ evs2 @ evs3)) \<subseteq> {l}"
          using e1 e2 e3 by (simp_all add: obs_append)
        ultimately show ?thesis by (intro exI[of _ "evs1 @ evs2 @ evs3"]) simp
      qed
    qed
  qed
qed

lemma scan_entries_skip:
  "all_seen s pre \<Longrightarrow> scan_entries w fd (pre @ es) s = scan_entries w fd es s"
  by (induction pre) (auto simp: all_seen_def)

lemma scan_entries_all_seen: "all_seen s es \<Longrightarrow> scan_entries w fd es s = Return () s"
  using scan_entries_skip[of s es w fd "[]"] by simp

lemma scan_entries_step:
  "\<exists>evs. feed_step s (final_state (scan_entries w fd es s)) evs \<and>
     (\<forall>l. l \<in> set (fetches evs) \<or> l \<in> msg_link ` set (posts evs) \<longrightarrow>
        (\<exists>pre e rest. es = pre @ e # rest \<and> all_seen s pre \<and> link e = Some l \<and>
                       l \<notin> seen_articles s))"
proof (induction es)
  case Nil
  show ?case by (intro exI[of _ "[]"]) (simp add: feed_step_refl)
next
  case (Cons e es)
  show ?case
  proof (cases "link e")
    case None
    then show ?thesis by (intro exI[of _ "[]"]) (simp add: feed_step_refl)
  next
    case (Some l)
    note l = this
    show ?thesis
    proof (cases "l \<in> seen_articles s")
      case True
      from Cons obtain evs where st: "feed_step s (final_state (scan_entries w fd es s)) evs"
        and sel: "\<forall>k. k \<in> set (fetches evs) \<or> k \<in> msg_link ` set (posts evs) \<longrightarrow>
            (\<exists>pre e' rest. es = pre @ e' # rest \<and> all_seen s pre \<and> link e' = Some k \<and>
                       k \<notin> seen_articles s)"
        by blast
      have "\<exists>pre e' rest. e # es = pre @ e' # rest \<and> all_seen s pre \<and> link e' = Some k \<and>
                       k \<notin> seen_articles s"
        if "k \<in> set (fetches evs) \<or> k \<in> msg_link ` set (posts evs)" for k
      proof -
        from sel that obtain pre e' rest where d: "es = pre @ e' # rest" "all_seen s pre"
          "link e' = Some k" "k \<notin> seen_articles s" by blast
        have "e # es = (e # pre) @ e' # rest" using d by simp
        moreover have "all_seen s (e # pre)" using d l True by (simp add: all_seen_def)
        ultimately show ?thesis using d by blast
      qed
      with st l True show ?thesis by (intro exI[of _ evs]) simp
    next
      case False
      obtain evs where st: "feed_step s (final_state (process_entry w fd e l s)) evs"
        and ob: "set (fetches evs) \<subseteq> {l}" "msg_link ` set (posts evs) \<subseteq> {l}"
        using process_entry_step[OF False] by blast
      have "\<exists>pre e' rest. e # es = pre @ e' # rest \<and> all_seen s pre \<and> link e' = Some k \<and>
                       k \<notin> seen_articles s"
        if "k \<in> set (fetches evs) \<or> k \<in> msg_link ` set (posts evs)" for k
      proof -
        from that ob have "k = l" by auto
        moreover have "e # es = [] @ e # es" by simp
        moreover have "all_seen s []" by (simp add: all_seen_def)
        ultimately show ?thesis using l False by blast
      qed
      with st l False show ?thesis by (intro exI[of _ evs]) simp
    qed
  qed
qed

lemma process_feed_step:
  "\<exists>evs. feed_step s (final_state (process_feed w url s)) evs \<and>
     (\<forall>fd l. feedparser_parse w (now s) url = Inr fd \<longrightarrow>
        l \<in> set (fetches evs) \<or> l \<in> msg_link ` set (posts evs) \<longrightarrow>
        (\<exists>pre e rest. rev (entries fd) = pre @ e # rest \<and> all_seen s pre \<and> link e = Some l \<and>
                       l \<notin> seen_articles s))"
proof (cases "feedparser_parse w (now s) url")
  case (Inl ex)
  then have "process_feed w url s = Raise ex (emit (Parse url) s)"
    by (simp add: process_feed_def call_def)
  moreover have "feed_step s (emit (Parse url) s) [Parse url]"
    by (simp add: feed_step_def emit_def cycles_started_simps)
  ultimately show ?thesis using Inl by (intro exI[of _ "[Parse url]"]) simp
next
  case (Inr fd)
  let ?s1 = "emit (Parse url) s"
  have pf: "process_feed w url s = scan_entries w fd (rev (entries fd)) ?s1"
    using Inr by (simp add: process_feed_def call_def)
  have same: "seen_articles ?s1 = seen_articles s" "remote ?s1 = remote s"
    "new_links_added ?s1 = new_links_added s" "trace ?s1 = trace s @ [Parse url]"
    by (simp_all add: emit_def)
  have as: "all_seen ?s1 pre = all_seen s pre" for pre
    by (simp add: all_seen_def same)
  obtain evs where st: "feed_step ?s1 (final_state (scan_entries w fd (rev (entries fd)) ?s1)) evs"
    and sel: "\<forall>l. l \<in> set (fetches evs) \<or> l \<in> msg_link ` set (posts evs) \<longrightarrow>
        (\<exists>pre e rest. rev (entries fd) = pre @ e # rest \<and> all_seen ?s1 pre \<and> link e = Some l \<and>
                       l \<notin> seen_articles ?s1)"
    using scan_entries_step by blast
  have "feed_step s (final_state (process_feed w url s)) (Parse url # evs)"
    using st unfolding pf feed_step_def same by (simp add: cycles_started_simps)
  moreover have "fetches (Parse url # evs) = fetches evs" "posts (Parse url # evs) = posts evs"
    by simp_all
  ultimately show ?thesis using sel Inr unfolding as same
    by (intro exI[of _ "Parse url # evs"]) simp
qed

lemma cycle_step_refl: "cycle_step s s []"
  by (simp add: cycle_step_def cycles_started_simps)

lemma feed_cycle_step:
  assumes "feed_step s s1 a" and "cycle_step s1 s2 b"
  shows "cycle_step s s2 (a @ b)"
proof -
  have pa: "length (posts a) \<le> 1" using assms(1) by (simp add: feed_step_def)
  then have da: "distinct (map msg_link (posts a))"
    by (cases "posts a") (auto simp: le_Suc_eq)
  have s1: "seen_articles s1 = seen_articles s \<union> msg_link ` set (posts a)"
    using assms(1) by (simp add: feed_step_def)
  have na: "\<forall>m \<in> set (posts a). msg_link m \<notin> seen_articles s"
    using assms(1) by (simp add: feed_step_def)
  have nb: "\<forall>m \<in> set (posts b). msg_link m \<notin> seen_articles s1"
    using assms(2) by (simp add: cycle_step_def)
  have db: "distinct (map msg_link (posts b))"
    using assms(2) by (simp add: cycle_step_def)
  have disj: "msg_link ` set (posts a) \<inter> msg_link ` set (posts b) = {}"
  proof -
    have "x \<notin> msg_link ` set (posts b)" if "x \<in> msg_link ` set (posts a)" for x
    proof
      assume "x \<in> msg_link ` set (posts b)"
      then obtain m where "m \<in> set (posts b)" "x = msg_link m" by auto
      with nb have "x \<notin> seen_articles s1" by simp
      with that s1 show False by simp
    qed
    then show ?thesis by auto
  qed
  have c1: "trace s2 = trace s @ a @ b"
    using assms by (simp add: feed_step_def cycle_step_def)
  have c2: "remote s2 = remote s"
    using assms by (simp add: feed_step_def cycle_step_def)
  have c3: "uploads (a @ b) = []" "cycles_started (a @ b) = 0"
    using assms by (simp_all add: feed_step_def cycle_step_def obs_append)
  have s2: "seen_articles s2 = seen_articles s1 \<union> msg_link ` set (posts b)"
    using assms(2) by (simp add: cycle_step_def)
  have c4: "seen_articles s2 = seen_articles s \<union> msg_link ` set (posts (a @ b))"
    unfolding s2 s1 by (simp add: obs_append image_Un Un_assoc)
  have c5: "distinct (map msg_link (posts (a @ b)))"
    using da db disj by (simp add: obs_append)
  have c6: "\<forall>m \<in> set (posts (a @ b)). msg_link m \<notin> seen_articles s"
    using na nb s1 by (auto simp: obs_append)
  have f1: "new_links_added s1 = (new_links_added s \<or> posts a \<noteq> [])"
    using assms(1) by (simp add: feed_step_def)
  have f2: "new_links_added s2 = (new_links_added s1 \<or> posts b \<noteq> [])"
    using assms(2) by (simp add: cycle_step_def)
  have c7: "new_links_added s2 = (new_links_added s \<or> posts (a @ b) \<noteq> [])"
    unfolding f2 f1 by (simp add: obs_append disj_assoc)
  show ?thesis
    unfolding cycle_step_def by (intro conjI c1 c2 c3 c4 c5 c6 c7)
qed

lemma check_feeds_step:
  "\<exists>evs. cycle_step s (final_state (check_feeds w urls s)) evs \<and>
         length (posts evs) \<le> length urls"
proof (induction urls arbitrary: s)
  case Nil
  show ?case by (intro exI[of _ "[]"]) (simp add: cycle_step_refl)
next
  case (Cons url urls)
  obtain a where a: "feed_step s (final_state (process_feed w url s)) a"
    using process_feed_step by blast
  then have la: "length (posts a) \<le> 1" by (simp add: feed_step_def)
  show ?case
  proof (cases "process_feed w url s")
    case (Raise ex s1)
    with a have "cycle_step s (final_state (check_feeds w (url # urls) s)) (a @ [])"
      using feed_cycle_step[OF _ cycle_step_refl] by simp
    with la show ?thesis by (intro exI[of _ a]) simp
  next
    case (Return u s1)
    from Cons[of s1] obtain b where b: "cycle_step s1 (final_state (check_feeds w urls s1)) b"
      and lb: "length (posts b) \<le> length urls" by blast
    from a Return have "feed_step s s1 a" by simp
    from feed_cycle_step[OF this b] Return
    have "cycle_step s (final_state (check_feeds w (url # urls) s)) (a @ b)" by simp
    with la lb show ?thesis by (intro exI[of _ "a @ b"]) (simp add: obs_append)
  qed
qed

lemma get_seen_links_effect:
  "\<exists>S evs. get_seen_links w s = Return S (s\<lparr>trace := trace s @ evs\<rparr>) \<and>
     cycles_started evs = 1 \<and> posts evs = [] \<and> uploads evs = [] \<and> fetches evs = [] \<and>
     generations evs = [] \<and>
     (remote s = None \<or> hub_error w (now s) \<noteq> None \<longrightarrow> S = {}) \<and>
     (\<forall>c. hub_error w (now s) = None \<and> remote s = Some c \<longrightarrow> S = read_links c)"
proof (cases "hub_error w (now s)")
  case (Some ex)
  then have "get_seen_links w s = Return {} (s\<lparr>trace := trace s @ [Download, Logged ex]\<rparr>)"
    by (simp add: get_seen_links_def hf_hub_download_def emit_def log_error_def)
  with Some show ?thesis
    by (intro exI[of _ "{}"] exI[of _ "[Download, Logged ex]"]) (simp add: cycles_started_simps)
next
  case None
  note ok = this
  show ?thesis
  proof (cases "remote s")
    case None
    with ok have "get_seen_links w s =
       Return {} (s\<lparr>trace := trace s @ [Download, Logged (Exception ''EntryNotFoundError'')]\<rparr>)"
      by (simp add: get_seen_links_def hf_hub_download_def emit_def log_error_def)
    with None ok show ?thesis
      by (intro exI[of _ "{}"] exI[of _ "[Download, Logged (Exception ''EntryNotFoundError'')]"])
         (simp add: cycles_started_simps)
  next
    case (Some c)
    with ok have "get_seen_links w s = Return (read_links c) (s\<lparr>trace := trace s @ [Download]\<rparr>)"
      by (simp add: get_seen_links_def hf_hub_download_def emit_def log_error_def)
    with Some ok show ?thesis
      by (intro exI[of _ "read_links c"] exI[of _ "[Download]"]) (simp add: cycles_started_simps)
  qed
qed

lemma update_seen_links_effect:
  "\<exists>evs r. update_seen_links w S s = Return () (s\<lparr>trace := trace s @ evs, remote := r\<rparr>) \<and>
     cycles_started evs = 0 \<and> posts evs = [] \<and> fetches evs = [] \<and> generations evs = [] \<and>
     uploads evs = [write_links (iteration w S)] \<and>
     r = (if hub_error w (now s) = None then Some (write_links (iteration w S)) else remote s)"
proof (cases "hub_error w (now s)")
  case (Some ex)
  let ?c = "write_links (iteration w S)"
  from Some have "update_seen_links w S s =
      Return () (s\<lparr>trace := trace s @ [Upload ?c, Logged ex], remote := remote s\<rparr>)"
    by (simp add: update_seen_links_def upload_file_def emit_def log_error_def)
  with Some show ?thesis
    by (intro exI[of _ "[Upload ?c, Logged ex]"] exI[of _ "remote s"])
       (simp add: cycles_started_simps)
next
  case None
  let ?c = "write_links (iteration w S)"
  from None have "update_seen_links w S s =
      Return () (s\<lparr>trace := trace s @ [Upload ?c], remote := Some ?c\<rparr>)"
    by (simp add: update_seen_links_def upload_file_def emit_def log_error_def)
  with None show ?thesis
    by (intro exI[of _ "[Upload ?c]"] exI[of _ "Some ?c"])
       (simp add: cycles_started_simps)
qed

lemma run_pipeline_summary:
  "\<exists>S s1 evs. get_seen_links w s = Return S s1 \<and>
     trace (final_state (run_pipeline w s)) = trace s @ evs \<and>
     cycles_started evs = 1 \<and>
     length (posts evs) \<le> length RSS_URLS \<and>
     distinct (map msg_link (posts evs)) \<and>
     (\<forall>m \<in> set (posts evs). msg_link m \<notin> S) \<and>
     seen_articles (final_state (run_pipeline w s)) = S \<union> msg_link ` set (posts evs) \<and>
     uploads evs =
       (if (\<exists>s'. run_pipeline w s = Return () s') \<and> posts evs \<noteq> []
        then [write_links (iteration w (seen_articles (final_state (run_pipeline w s))))]
        else []) \<and>
     (uploads evs = [] \<longrightarrow> remote (final_state (run_pipeline w s)) = remote s)"
proof -
  obtain S e0 where g: "get_seen_links w s = Return S (s\<lparr>trace := trace s @ e0\<rparr>)"
    and e0: "cycles_started e0 = 1" "posts e0 = []" "uploads e0 = []"
    using get_seen_links_effect by blast
  let ?s1 = "s\<lparr>trace := trace s @ e0\<rparr>"
  let ?s1' = "?s1\<lparr>seen_articles := S, new_links_added := False\<rparr>"
  let ?rc = "check_feeds w RSS_URLS ?s1'"
  let ?s2 = "final_state ?rc"
  obtain e1 where c: "cycle_step ?s1' ?s2 e1" and l1: "length (posts e1) \<le> length RSS_URLS"
    using check_feeds_step by blast
  have tr2: "trace ?s2 = trace s @ e0 @ e1" using c by (simp add: cycle_step_def)
  have rm2: "remote ?s2 = remote s" using c by (simp add: cycle_step_def)
  have up1: "uploads e1 = []" and cs1: "cycles_started e1 = 0"
    using c by (simp_all add: cycle_step_def)
  have sn2: "seen_articles ?s2 = S \<union> msg_link ` set (posts e1)"
    using c by (simp add: cycle_step_def)
  have d1: "distinct (map msg_link (posts e1))" using c by (simp add: cycle_step_def)
  have n1: "\<forall>m \<in> set (posts e1). msg_link m \<notin> S" using c by (simp add: cycle_step_def)
  have fl: "new_links_added ?s2 = (posts e1 \<noteq> [])" using c by (simp add: cycle_step_def)
  have rp: "run_pipeline w s =
      and_then ?rc (\<lambda>u s2. if new_links_added s2 then update_seen_links w (seen_articles s2) s2
                             else Return () s2)"
    using g by (simp add: run_pipeline_def)
  show ?thesis
  proof (cases ?rc)
    case (Raise ex s2)
    then have r: "run_pipeline w s = Raise ex ?s2" using rp by simp
    show ?thesis
      using g r tr2 rm2 up1 cs1 e0 sn2 d1 n1 l1
      by (intro exI[of _ S] exI[of _ ?s1] exI[of _ "e0 @ e1"]) (simp add: obs_append)
  next
    case (Return u s2)
    note ret = this
    show ?thesis
    proof (cases "posts e1 = []")
      case True
      with fl ret rp have r: "run_pipeline w s = Return () ?s2" by simp
      show ?thesis
        using g r tr2 rm2 up1 cs1 e0 sn2 d1 n1 l1 True
        by (intro exI[of _ S] exI[of _ ?s1] exI[of _ "e0 @ e1"]) (simp add: obs_append)
    next
      case False
      with fl ret rp have r0: "run_pipeline w s = update_seen_links w (seen_articles ?s2) ?s2"
        by simp
      obtain e2 rr where u: "update_seen_links w (seen_articles ?s2) ?s2 =
            Return () (?s2\<lparr>trace := trace ?s2 @ e2, remote := rr\<rparr>)"
        and e2: "cycles_started e2 = 0" "posts e2 = []"
          "uploads e2 = [write_links (iteration w (seen_articles ?s2))]"
        using update_seen_links_effect by blast
      have r: "run_pipeline w s = Return () (?s2\<lparr>trace := trace ?s2 @ e2, remote := rr\<rparr>)"
        using r0 u by simp
      show ?thesis
        using g tr2 up1 cs1 e0 e2 sn2 d1 n1 l1 False unfolding r
        by (intro exI[of _ S] exI[of _ ?s1] exI[of _ "e0 @ e1 @ e2"]) (simp add: obs_append)
    qed
  qed
qed

lemma all_seen_trace [simp]: "all_seen (s\<lparr>trace := tr\<rparr>) es = all_seen s es"
  by (simp add: all_seen_def)

lemma process_feed_nothing_new:
  assumes "\<forall>t fd. feedparser_parse w t url = Inr fd \<longrightarrow> all_seen s (entries fd)"
  shows "final_state (process_feed w url s) = s\<lparr>trace := trace s @ [Parse url]\<rparr>"
proof (cases "feedparser_parse w (now s) url")
  case (Inl ex)
  then show ?thesis by (simp add: process_feed_def call_def emit_def)
next
  case (Inr fd)
  with assms have "all_seen s (entries fd)" by blast
  then have "all_seen (emit (Parse url) s) (rev (entries fd))"
    by (simp add: all_seen_def emit_def)
  then have "scan_entries w fd (rev (entries fd)) (emit (Parse url) s) = Return () (emit (Parse url) s)"
    by (rule scan_entries_all_seen)
  with Inr show ?thesis by (simp add: process_feed_def call_def emit_def)
qed

lemma check_feeds_nothing_new:
  assumes "\<forall>url \<in> set urls. \<forall>t fd. feedparser_parse w t url = Inr fd \<longrightarrow> all_seen s (entries fd)"
  shows "\<exists>evs. final_state (check_feeds w urls s) = s\<lparr>trace := trace s @ evs\<rparr> \<and> posts evs = []"
  using assms
proof (induction urls arbitrary: s)
  case Nil
  show ?case by (intro exI[of _ "[]"]) simp
next
  case (Cons url urls)
  let ?s1 = "s\<lparr>trace := trace s @ [Parse url]\<rparr>"
  have f: "final_state (process_feed w url s) = ?s1"
    using Cons.prems by (intro process_feed_nothing_new) simp
  show ?case
  proof (cases "process_feed w url s")
    case (Raise ex s1)
    with f show ?thesis by (intro exI[of _ "[Parse url]"]) simp
  next
    case (Return u s1)
    with f have s1: "s1 = ?s1" by simp
    have "\<forall>url \<in> set urls. \<forall>t fd. feedparser_parse w t url = Inr fd \<longrightarrow> all_seen ?s1 (entries fd)"
      using Cons.prems by simp
    from Cons.IH[OF this] obtain evs where
      e: "final_state (check_feeds w urls ?s1) = ?s1\<lparr>trace := trace ?s1 @ evs\<rparr>" "posts evs = []"
      by blast
    with Return s1 show ?thesis by (intro exI[of _ "Parse url # evs"]) simp
  qed
qed

lemma loop_body_effect:
  "\<exists>s'. loop_body w s = Return () s' \<and>
        cycles_started (trace s') = cycles_started (trace s) + 1 \<and>
        (\<forall>e s1. run_pipeline w s = Raise e s1 \<longrightarrow>
           s' = s1\<lparr>trace := trace s1 @ [Logged e, Sleep 60]\<rparr>) \<and>
        (\<forall>s1. run_pipeline w s = Return () s1 \<longrightarrow>
           s' = s1\<lparr>trace := trace s1 @ [Sleep 1800]\<rparr>)"
proof -
  obtain evs where tr: "trace (final_state (run_pipeline w s)) = trace s @ evs"
    and cs: "cycles_started evs = 1"
    using run_pipeline_summary by blast
  show ?thesis
  proof (cases "run_pipeline w s")
    case (Return u s1)
    with tr have t1: "trace s1 = trace s @ evs" by simp
    have "loop_body w s = Return () (s1\<lparr>trace := trace s1 @ [Sleep 1800]\<rparr>)"
      using Return by (simp add: loop_body_def sleep_def emit_def)
    moreover have "cycles_started (trace s1 @ [Sleep 1800]) = cycles_started (trace s) + 1"
      using cs unfolding t1 by (simp add: cycles_started_append cycles_started_simps)
    ultimately show ?thesis using Return by simp
  next
    case (Raise e s1)
    with tr have t1: "trace s1 = trace s @ evs" by simp
    have "loop_body w s = Return () (s1\<lparr>trace := trace s1 @ [Logged e, Sleep 60]\<rparr>)"
      using Raise by (simp add: loop_body_def sleep_def emit_def log_error_def)
    moreover have "cycles_started (trace s1 @ [Logged e, Sleep 60]) = cycles_started (trace s) + 1"
      using cs unfolding t1 by (simp add: cycles_started_append cycles_started_simps)
    ultimately show ?thesis using Raise by simp
  qed
qed

lemma background_task_effect:
  "\<exists>s'. background_task w n s = Return () s' \<and>
        cycles_started (trace s') = cycles_started (trace s) + n"
proof (induction n arbitrary: s)
  case 0
  show ?case by simp
next
  case (Suc n)
  obtain s1 where l: "loop_body w s = Return () s1"
    and c: "cycles_started (trace s1) = cycles_started (trace s) + 1"
    using loop_body_effect by blast
  from Suc[of s1] obtain s' where "background_task w n s1 = Return () s'"
    "cycles_started (trace s') = cycles_started (trace s1) + n" by blast
  with l c show ?case by simp
qed




lemma process_entry_fetches:
  assumes "title e = Some t"
  shows "\<exists>evs. trace (final_state (process_entry w fd e l s)) = trace s @ evs \<and>
           fetches evs = [l]"
proof -
  obtain v evs1 where sc: "scrape_article_text w l s = Return v (s\<lparr>trace := trace s @ evs1\<rparr>)"
    and e1: "fetches evs1 = [l]"
    using scrape_effect by blast
  let ?s1 = "s\<lparr>trace := trace s @ evs1\<rparr>"
  show ?thesis
  proof (cases "truthy v")
    case False
    with assms sc have "process_entry w fd e l s = Return () ?s1" by (simp add: process_entry_def)
    with e1 show ?thesis by (intro exI[of _ evs1]) simp
  next
    case True
    note tr = this
    obtain evs2 where su: "final_state (summarize_text w v ?s1) = ?s1\<lparr>trace := trace ?s1 @ evs2\<rparr>"
      and e2: "fetches evs2 = []"
      using summarize_effect by blast
    let ?s2 = "?s1\<lparr>trace := trace ?s1 @ evs2\<rparr>"
    show ?thesis
    proof (cases "summarize_text w v ?s1")
      case (Raise ex s2')
      with su have "s2' = ?s2" by simp
      with Raise assms sc tr have "process_entry w fd e l s = Raise ex ?s2"
        by (simp add: process_entry_def)
      with e1 e2 show ?thesis by (intro exI[of _ "evs1 @ evs2"]) (simp add: obs_append)
    next
      case (Return summary s2')
      with su have s2': "s2' = ?s2" by simp
      show ?thesis
      proof (cases "feed_title fd")
        case None
        with Return s2' assms sc tr
        have "process_entry w fd e l s = Raise (Exception ''AttributeError: title'') ?s2"
          by (simp add: process_entry_def)
        with e1 e2 show ?thesis by (intro exI[of _ "evs1 @ evs2"]) (simp add: obs_append)
      next
        case (Some ft)
        let ?m = "\<lparr>msg_source = ft, msg_title = t, msg_summary = summary, msg_link = l\<rparr>"
        obtain evs3 where se: "send_telegram_message w ?m ?s2 = Return () (?s2\<lparr>trace := trace ?s2 @ evs3\<rparr>)"
          and e3: "fetches evs3 = []"
          using send_effect by blast
        let ?s3 = "?s2\<lparr>trace := trace ?s2 @ evs3\<rparr>"
        let ?s4 = "?s3\<lparr>seen_articles := insert l (seen_articles ?s3), new_links_added := True\<rparr>"
        from Some Return s2' assms sc tr se
        have "process_entry w fd e l s = Return () ?s4" by (simp add: process_entry_def)
        with e1 e2 e3 show ?thesis by (intro exI[of _ "evs1 @ evs2 @ evs3"]) (simp add: obs_append)
      qed
    qed
  qed
qed

lemma process_feed_selects:
  assumes fd: "feedparser_parse w (now s) url = Inr fd"
    and split: "entries fd = newer @ e # older"
    and seen: "all_seen s older"
    and l: "link e = Some l" "l \<notin> seen_articles s"
  shows "process_feed w url s = process_entry w fd e l (emit (Parse url) s)"
proof -
  let ?s0 = "emit (Parse url) s"
  have r: "rev (entries fd) = rev older @ e # rev newer" using split by simp
  have "process_feed w url s = scan_entries w fd (rev older @ e # rev newer) ?s0"
    using fd r by (simp add: process_feed_def call_def)
  also have "\<dots> = scan_entries w fd (e # rev newer) ?s0"
    using seen by (intro scan_entries_skip) (simp add: all_seen_def emit_def)
  also have "\<dots> = process_entry w fd e l ?s0"
    using l by (simp add: emit_def)
  finally show ?thesis .
qed

lemma get_seen_links_first:
  "\<exists>S logs. get_seen_links w s = Return S (s\<lparr>trace := trace s @ Download # logs\<rparr>)"
proof -
  obtain S evs where "get_seen_links w s = Return S (s\<lparr>trace := trace s @ evs\<rparr>)"
    using get_seen_links_effect by blast
  show ?thesis
  proof (cases "hub_error w (now s)")
    case (Some ex)
    then have "get_seen_links w s = Return {} (s\<lparr>trace := trace s @ Download # [Logged ex]\<rparr>)"
      by (simp add: get_seen_links_def hf_hub_download_def emit_def log_error_def)
    then show ?thesis by blast
  next
    case None
    note ok = this
    show ?thesis
    proof (cases "remote s")
      case None
      with ok have "get_seen_links w s =
         Return {} (s\<lparr>trace := trace s @ Download # [Logged (Exception ''EntryNotFoundError'')]\<rparr>)"
        by (simp add: get_seen_links_def hf_hub_download_def emit_def log_error_def)
      then show ?thesis by blast
    next
      case (Some c)
      with ok have "get_seen_links w s = Return (read_links c) (s\<lparr>trace := trace s @ Download # []\<rparr>)"
        by (simp add: get_seen_links_def hf_hub_download_def emit_def log_error_def)
      then show ?thesis by blast
    qed
  qed
qed

lemma run_pipeline_tail:
  assumes g: "get_seen_links w s = Return S sg"
  shows "\<exists>evs. trace (final_state (run_pipeline w s)) =
           trace (final_state (check_feeds w RSS_URLS
                    (sg\<lparr>seen_articles := S, new_links_added := False\<rparr>))) @ evs \<and>
           posts evs = []"
proof -
  let ?rc = "check_feeds w RSS_URLS (sg\<lparr>seen_articles := S, new_links_added := False\<rparr>)"
  have rp: "run_pipeline w s =
      and_then ?rc (\<lambda>u s2. if new_links_added s2 then update_seen_links w (seen_articles s2) s2
                             else Return () s2)"
    using g by (simp add: run_pipeline_def)
  show ?thesis
  proof (cases ?rc)
    case (Raise ex s2)
    with rp show ?thesis by (intro exI[of _ "[]"]) simp
  next
    case (Return u s2)
    note ret = this
    show ?thesis
    proof (cases "new_links_added s2")
      case False
      with rp ret show ?thesis by (intro exI[of _ "[]"]) simp
    next
      case True
      obtain e2 rr where u: "update_seen_links w (seen_articles s2) s2 =
            Return () (s2\<lparr>trace := trace s2 @ e2, remote := rr\<rparr>)"
        and e2: "posts e2 = []"
        using update_seen_links_effect by blast
      with rp ret True show ?thesis by (intro exI[of _ e2]) simp
    qed
  qed
qed

lemma run_pipeline_starts:
  "\<exists>rest. trace (final_state (run_pipeline w s)) = trace s @ Download # rest"
proof -
  obtain S logs where g: "get_seen_links w s = Return S (s\<lparr>trace := trace s @ Download # logs\<rparr>)"
    using get_seen_links_first by blast
  let ?c = "(s\<lparr>trace := trace s @ Download # logs\<rparr>)\<lparr>seen_articles := S, new_links_added := False\<rparr>"
  obtain e1 where c: "cycle_step ?c (final_state (check_feeds w RSS_URLS ?c)) e1"
    using check_feeds_step by blast
  then have t1: "trace (final_state (check_feeds w RSS_URLS ?c)) = (trace s @ Download # logs) @ e1"
    by (simp add: cycle_step_def)
  obtain e2 where "trace (final_state (run_pipeline w s)) =
      trace (final_state (check_feeds w RSS_URLS ?c)) @ e2"
    using run_pipeline_tail[OF g] by blast
  then have "trace (final_state (run_pipeline w s)) = trace s @ Download # (logs @ e1 @ e2)"
    unfolding t1 by simp
  then show ?thesis by blast
qed





section \<open>Reading back what was written\<close>

lemma CR_neq_LF [simp]: "CR \<noteq> LF" "LF \<noteq> CR"
  by (simp_all add: CR_def LF_def)

lemma isspace_LF [simp]: "isspace LF"
  by (simp add: isspace_def LF_def)

lemma universal_newlines_id: "CR \<notin> set s \<Longrightarrow> universal_newlines s = s"
  by (induction s rule: universal_newlines.induct) auto

lemma file_lines_line: "LF \<notin> set l \<Longrightarrow> file_lines (l @ LF # cs) = (l @ [LF]) # file_lines cs"
  by (induction l) auto

lemma dropWhile_same_length:
  assumes "length xs \<le> length (dropWhile P xs)"
  shows "dropWhile P xs = xs \<and> (xs \<noteq> [] \<longrightarrow> \<not> P (hd xs))"
proof (cases xs)
  case Nil
  then show ?thesis by simp
next
  case (Cons a list)
  have "\<not> P a"
  proof
    assume "P a"
    with Cons assms have "Suc (length list) \<le> length (dropWhile P list)" by simp
    moreover have "length (dropWhile P list) \<le> length list" by (rule length_dropWhile_le)
    ultimately show False by simp
  qed
  with Cons show ?thesis by simp
qed

lemma strip_line:
  assumes "strip l = l"
  shows "strip (l @ [LF]) = l"
proof (cases "l = []")
  case True
  then show ?thesis by (simp add: strip_def)
next
  case False
  have "length (strip l) \<le> length (dropWhile isspace l)"
    unfolding strip_def using length_dropWhile_le[of isspace "rev (dropWhile isspace l)"] by simp
  with assms have "length l \<le> length (dropWhile isspace l)" by simp
  then have d1: "dropWhile isspace l = l" and h: "\<not> isspace (hd l)"
    using dropWhile_same_length[of l isspace] False by simp_all
  from assms d1 have "rev (dropWhile isspace (rev l)) = l" by (simp add: strip_def)
  then have "rev (rev (dropWhile isspace (rev l))) = rev l" by simp
  then have d2: "dropWhile isspace (rev l) = rev l" by simp
  have "dropWhile isspace (l @ [LF]) = l @ [LF]"
    using False h by (cases l) auto
  then show ?thesis using d2 by (simp add: strip_def)
qed

lemma set_write_links: "set (write_links ls) \<subseteq> insert LF (\<Union>l \<in> set ls. set l)"
  by (induction ls) (auto simp: write_links_def)

lemma lines_of_write_links:
  assumes "\<forall>l \<in> set ls. clean_identifier l"
  shows "map strip (file_lines (write_links ls)) = ls"
  using assms
proof (induction ls)
  case Nil
  show ?case by (simp add: write_links_def)
next
  case (Cons l ls)
  then have c: "strip l = l" "LF \<notin> set l" by (simp_all add: clean_identifier_def)
  have "write_links (l # ls) = l @ LF # write_links ls" by (simp add: write_links_def)
  then have "file_lines (write_links (l # ls)) = (l @ [LF]) # file_lines (write_links ls)"
    using c(2) by (simp add: file_lines_line)
  with Cons c(1) show ?case by (simp add: strip_line)
qed

lemma read_links_write_links:
  assumes "\<forall>l \<in> set ls. clean_identifier l"
  shows "read_links (write_links ls) = set ls"
proof -
  have "CR \<notin> set (write_links ls)"
    using set_write_links[of ls] assms by (auto simp: clean_identifier_def)
  then have "universal_newlines (write_links ls) = write_links ls"
    by (rule universal_newlines_id)
  then show ?thesis using lines_of_write_links[OF assms] by (simp add: read_links_def)
qed

section \<open>The session guard\<close>

lemma script_run_idempotent: "script_run session (script_run session p) = script_run session p"
  by (simp add: script_run_def Let_def)

lemma script_run_step:
  assumes "finite A"
    and "\<forall>x. (session_state p x ''bot_thread'' \<noteq> None) = (x \<in> A)"
    and "length (threads p) = card A"
  shows "(\<forall>x. (session_state (script_run session p) x ''bot_thread'' \<noteq> None) = (x \<in> insert session A)) \<and>
         length (threads (script_run session p)) = card (insert session A)"
proof (cases "session \<in> A")
  case True
  with assms(2) have "session_state p session ''bot_thread'' \<noteq> None" by simp
  then have "script_run session p = p" by (auto simp: script_run_def)
  with True assms show ?thesis by (simp add: insert_absorb)
next
  case False
  have n: "session_state p session ''bot_thread'' = None"
  proof (rule ccontr)
    assume "session_state p session ''bot_thread'' \<noteq> None"
    with assms(2) have "session \<in> A" by blast
    with False show False by simp
  qed
  then show ?thesis using assms False by (simp add: script_run_def Let_def)
qed

lemma script_runs:
  assumes "finite A"
    and "\<forall>x. (session_state p x ''bot_thread'' \<noteq> None) = (x \<in> A)"
    and "length (threads p) = card A"
  shows "length (threads (fold script_run sessions p)) = card (A \<union> set sessions)"
  using assms
proof (induction sessions arbitrary: p A)
  case Nil
  then show ?case by simp
next
  case (Cons session sessions)
  from script_run_step[OF Cons.prems, of session]
  have "length (threads (fold script_run sessions (script_run session p))) =
          card (insert session A \<union> set sessions)"
    using Cons.prems(1) by (intro Cons.IH) simp_all
  then show ?case by simp
qed

section \<open>Two cycles in a row\<close>


section \<open>Evaluation on concrete inputs\<close>

lemmas model_defs =
  run_pipeline_def get_seen_links_def update_seen_links_def hf_hub_download_def upload_file_def
  process_feed_def process_entry_def scrape_article_text_def summarize_text_def
  send_telegram_message_def call_def emit_def now_def log_error_def truthy_def
  loop_body_def sleep_def

lemmas input_defs =
  demo_world_def start_def RSS_URLS_def first_url_def old_link_def mid_link_def new_link_def
  entry_old_def entry_mid_def entry_new_def newest_first_feed_def oldest_first_feed_def
  empty_feed_def

section \<open>The pipeline: one entry for each feed\<close>




text \<open>
  C2, as the code has it. Checking a feed processes the last entry of the feed's list whose
  link is not in the seen set, all entries after it in the list being seen: where that
  entry has a title, its page is the one that is fetched, and no other entry of the feed is
  fetched or notified. Conversely, every entry fetched or notified is that entry. It is the
  oldest unseen entry where the feed lists its entries newest first.
\<close>

theorem last_unseen_entry_selected:
  assumes "feedparser_parse w (now s) url = Inr fd"
  shows "(\<forall>newer e older l.
            entries fd = newer @ e # older \<and> all_seen s older \<and> link e = Some l \<and>
            l \<notin> seen_articles s \<longrightarrow>
              process_feed w url s = process_entry w fd e l (emit (Parse url) s) \<and>
              (title e \<noteq> None \<longrightarrow>
                 fetches (since s (final_state (process_feed w url s))) = [l]) \<and>
              set (fetches (since s (final_state (process_feed w url s)))) \<subseteq> {l} \<and>
              msg_link ` set (posts (since s (final_state (process_feed w url s)))) \<subseteq> {l} \<and>
              (sorted (rev (map published (entries fd))) \<longrightarrow>
                 (\<forall>x \<in> set (entries fd).
                    (\<forall>k. link x = Some k \<longrightarrow> k \<notin> seen_articles s) \<longrightarrow>
                    published e \<le> published x))) \<and>
         (\<forall>l. l \<in> set (fetches (since s (final_state (process_feed w url s)))) \<or>
               l \<in> msg_link ` set (posts (since s (final_state (process_feed w url s)))) \<longrightarrow>
            (\<exists>newer e older. entries fd = newer @ e # older \<and> link e = Some l \<and>
               l \<notin> seen_articles s \<and> all_seen s older \<and>
               (sorted (rev (map published (entries fd))) \<longrightarrow>
                  (\<forall>x \<in> set (entries fd).
                     (\<forall>k. link x = Some k \<longrightarrow> k \<notin> seen_articles s) \<longrightarrow>
                     published e \<le> published x))))"
proof -
  let ?f = "final_state (process_feed w url s)"
  let ?s0 = "emit (Parse url) s"
  obtain evs where st: "feed_step s ?f evs"
    and sel: "\<forall>fd l. feedparser_parse w (now s) url = Inr fd \<longrightarrow>
        l \<in> set (fetches evs) \<or> l \<in> msg_link ` set (posts evs) \<longrightarrow>
        (\<exists>pre e rest. rev (entries fd) = pre @ e # rest \<and> all_seen s pre \<and> link e = Some l \<and>
                       l \<notin> seen_articles s)"
    using process_feed_step by blast
  from st have "trace ?f = trace s @ evs" by (simp add: feed_step_def)
  then have si: "since s ?f = evs" by (rule since_append)
  have conv: "\<exists>newer e older. entries fd = newer @ e # older \<and> link e = Some l \<and>
               l \<notin> seen_articles s \<and> all_seen s older \<and>
               (sorted (rev (map published (entries fd))) \<longrightarrow>
                  (\<forall>x \<in> set (entries fd).
                     (\<forall>k. link x = Some k \<longrightarrow> k \<notin> seen_articles s) \<longrightarrow>
                     published e \<le> published x))"
    if h: "l \<in> set (fetches evs) \<or> l \<in> msg_link ` set (posts evs)" for l
  proof -
    from sel assms h obtain pre e rest where d: "rev (entries fd) = pre @ e # rest"
      and p: "all_seen s pre" and le: "link e = Some l" and un: "l \<notin> seen_articles s"
      by blast
    from d have "rev (rev (entries fd)) = rev (pre @ e # rest)" by simp
    then have en: "entries fd = rev rest @ e # rev pre" by simp
    have older: "all_seen s (rev pre)" using p by (simp add: all_seen_def)
    have chrono: "published e \<le> published x"
      if so: "sorted (rev (map published (entries fd)))"
        and x: "x \<in> set (entries fd)"
        and ux: "\<forall>k. link x = Some k \<longrightarrow> k \<notin> seen_articles s" for x
    proof -
      have "rev (map published (entries fd)) = map published pre @ published e # map published rest"
        using d by (simp add: rev_map)
      with so have le_rest: "\<forall>y \<in> set rest. published e \<le> published y"
        by (simp add: sorted_append)
      from x en have "x \<in> set rest \<or> x = e \<or> x \<in> set pre" by auto
      moreover have "x \<notin> set pre"
      proof
        assume "x \<in> set pre"
        with p obtain k where "link x = Some k" "k \<in> seen_articles s"
          by (auto simp: all_seen_def)
        with ux show False by simp
      qed
      ultimately show ?thesis using le_rest by auto
    qed
    show ?thesis using en le un older chrono by blast
  qed
  have sel1: "process_feed w url s = process_entry w fd e l ?s0 \<and>
              (title e \<noteq> None \<longrightarrow> fetches evs = [l]) \<and>
              set (fetches evs) \<subseteq> {l} \<and> msg_link ` set (posts evs) \<subseteq> {l} \<and>
              (sorted (rev (map published (entries fd))) \<longrightarrow>
                 (\<forall>x \<in> set (entries fd).
                    (\<forall>k. link x = Some k \<longrightarrow> k \<notin> seen_articles s) \<longrightarrow>
                    published e \<le> published x))"
    if h: "entries fd = newer @ e # older \<and> all_seen s older \<and> link e = Some l \<and>
            l \<notin> seen_articles s" for newer e older l
  proof -
    have pf: "process_feed w url s = process_entry w fd e l ?s0"
      using process_feed_selects[OF assms, of newer e older l] h by simp
    have un0: "l \<notin> seen_articles ?s0" using h by (simp add: emit_def)
    obtain ev1 where f1: "feed_step ?s0 (final_state (process_entry w fd e l ?s0)) ev1"
      and o1: "set (fetches ev1) \<subseteq> {l}" "msg_link ` set (posts ev1) \<subseteq> {l}"
      using process_entry_step[OF un0] by blast
    have "trace ?f = trace s @ Parse url # ev1"
      using f1 unfolding pf by (simp add: feed_step_def emit_def)
    then have "since s ?f = Parse url # ev1" by (rule since_append)
    then have ev: "evs = Parse url # ev1" using si by simp
    have a: "set (fetches evs) \<subseteq> {l}" "msg_link ` set (posts evs) \<subseteq> {l}"
      using o1 unfolding ev by simp_all
    have b: "fetches evs = [l]" if "title e \<noteq> None"
    proof -
      from that obtain t where t: "title e = Some t" by auto
      obtain ev2 where t2: "trace (final_state (process_entry w fd e l ?s0)) = trace ?s0 @ ev2"
        and f2: "fetches ev2 = [l]"
        using process_entry_fetches[OF t] by blast
      have "trace ?f = trace s @ Parse url # ev2" using t2 unfolding pf by (simp add: emit_def)
      then have "since s ?f = Parse url # ev2" by (rule since_append)
      then have "evs = Parse url # ev2" using si by simp
      then show ?thesis using f2 by simp
    qed
    have c: "published e \<le> published x"
      if so: "sorted (rev (map published (entries fd)))"
        and x: "x \<in> set (entries fd)"
        and ux: "\<forall>k. link x = Some k \<longrightarrow> k \<notin> seen_articles s" for x
    proof -
      have "rev (map published (entries fd)) =
              map published (rev older) @ published e # map published (rev newer)"
        using h by (simp add: rev_map)
      with so have le_newer: "\<forall>y \<in> set newer. published e \<le> published y"
        by (simp add: sorted_append)
      from x h have "x \<in> set newer \<or> x = e \<or> x \<in> set older" by auto
      moreover have "x \<notin> set older"
      proof
        assume "x \<in> set older"
        with h obtain k where "link x = Some k" "k \<in> seen_articles s"
          by (auto simp: all_seen_def)
        with ux show False by simp
      qed
      ultimately show ?thesis using le_newer by auto
    qed
    show ?thesis using pf a b c by blast
  qed
  show ?thesis unfolding si using sel1 conv by blast
qed

theorem last_unseen_entry_selected_witness:
  "feedparser_parse (demo_world newest_first_feed) (now start) first_url = Inr newest_first_feed \<and>
   entries newest_first_feed = [entry_new, entry_mid] @ entry_old # [] \<and>
   all_seen start [] \<and> link entry_old = Some old_link \<and> old_link \<notin> seen_articles start \<and>
   title entry_old \<noteq> None \<and>
   fetches (since start (final_state (process_feed (demo_world newest_first_feed) first_url start)))
     = [old_link] \<and>
   map msg_link (posts (since start
       (final_state (process_feed (demo_world newest_first_feed) first_url start)))) = [old_link] \<and>
   sorted (rev (map published (entries newest_first_feed))) \<and>
   published entry_old \<le> published entry_mid \<and> published entry_old \<le> published entry_new"
proof -
  have h1: "feedparser_parse (demo_world newest_first_feed) (now start) first_url
              = Inr newest_first_feed"
    by (simp add: input_defs)
  have h2: "entries newest_first_feed = [entry_new, entry_mid] @ entry_old # [] \<and>
     all_seen start [] \<and> link entry_old = Some old_link \<and> old_link \<notin> seen_articles start"
    by (simp add: input_defs all_seen_def)
  have h3: "title entry_old \<noteq> None" by (simp add: input_defs)
  from last_unseen_entry_selected [OF h1] h2 h3
  have f: "fetches (since start
       (final_state (process_feed (demo_world newest_first_feed) first_url start))) = [old_link]"
    by blast
  have p: "map msg_link (posts (since start
       (final_state (process_feed (demo_world newest_first_feed) first_url start)))) = [old_link]"
    by (simp add: model_defs input_defs since_def)
  have so: "sorted (rev (map published (entries newest_first_feed))) \<and>
     published entry_old \<le> published entry_mid \<and> published entry_old \<le> published entry_new"
    by (simp add: input_defs)
  show ?thesis using h1 h2 h3 f p so by simp
qed

text \<open>
  For a feed that lists its entries oldest first, \<open>[old, mid, new]\<close>, all unseen, the cycle
  notifies \<open>new\<close>.
\<close>

theorem oldest_first_counterexample:
  "entries oldest_first_feed = [entry_old, entry_mid, entry_new] \<and>
   seen_articles start = {} \<and>
   map msg_link (posts (since start
       (final_state (run_pipeline (demo_world oldest_first_feed) start)))) = [new_link] \<and>
   new_link \<noteq> old_link"
  by (simp add: model_defs input_defs since_def)

text \<open>
  C3. At the end of a cycle, however it ends, the seen set is the set that was loaded
  together with the links of the notifications attempted in the cycle, and none of these
  links was in the loaded set. Sending never raises, whatever Telegram answers, so the link
  is added after every attempt.
\<close>

theorem seen_iff_notified:
  assumes "get_seen_links w s = Return S s1"
  shows "seen_articles (final_state (run_pipeline w s)) =
           S \<union> msg_link ` set (posts (since s (final_state (run_pipeline w s)))) \<and>
         (\<forall>m \<in> set (posts (since s (final_state (run_pipeline w s)))). msg_link m \<notin> S) \<and>
         (\<exists>s'. send_telegram_message w msg s2 = Return () s' \<and> posts (since s2 s') = [msg])"
proof -
  obtain S' s1' evs where g: "get_seen_links w s = Return S' s1'"
    and tr: "trace (final_state (run_pipeline w s)) = trace s @ evs"
    and n: "\<forall>m \<in> set (posts evs). msg_link m \<notin> S'"
    and sn: "seen_articles (final_state (run_pipeline w s)) = S' \<union> msg_link ` set (posts evs)"
    using run_pipeline_summary by blast
  have S: "S' = S" using g assms by simp
  have si: "since s (final_state (run_pipeline w s)) = evs" using tr by (rule since_append)
  obtain e3 where se: "send_telegram_message w msg s2 = Return () (s2\<lparr>trace := trace s2 @ e3\<rparr>)"
    and p3: "posts e3 = [msg]"
    using send_effect by blast
  have "posts (since s2 (s2\<lparr>trace := trace s2 @ e3\<rparr>)) = [msg]"
    using p3 by (simp add: since_grow)
  with se have "\<exists>s'. send_telegram_message w msg s2 = Return () s' \<and> posts (since s2 s') = [msg]"
    by blast
  then show ?thesis using n sn unfolding si S by blast
qed

theorem seen_iff_notified_witness:
  "get_seen_links offline_world start =
     Return {} (start\<lparr>trace := [Download, Logged (Exception ''EntryNotFoundError'')]\<rparr>) \<and>
   posts (since start (final_state (run_pipeline offline_world start))) =
     [\<lparr>msg_source = ''Example'', msg_title = ''Old'', msg_summary = ''summary'',
       msg_link = old_link\<rparr>] \<and>
   Logged (Exception ''ConnectionError'')
     \<in> set (since start (final_state (run_pipeline offline_world start))) \<and>
   seen_articles (final_state (run_pipeline offline_world start)) = {old_link}"
  using seen_iff_notified [of offline_world start "{}"
      "start\<lparr>trace := [Download, Logged (Exception ''EntryNotFoundError'')]\<rparr>"]
  by (simp add: model_defs input_defs offline_world_def since_def)

text \<open>
  C6. When the first unseen entry of a feed has no extractable text, checking the feed ends
  there: the link is not added, the flag is unchanged, nothing is summarized or sent, and
  the only page fetched is that entry's.
\<close>

theorem extraction_absent_skip:
  assumes "feedparser_parse w (now s) url = Inr fd"
    and "rev (entries fd) = pre @ e # rest"
    and "all_seen s pre"
    and "link e = Some l"
    and "l \<notin> seen_articles s"
    and "title e = Some t"
    and "scrape_article_text w l (emit (Parse url) s) = Return x s1"
    and "\<not> truthy x"
  shows "process_feed w url s = Return () s1 \<and>
         seen_articles s1 = seen_articles s \<and> l \<notin> seen_articles s1 \<and>
         new_links_added s1 = new_links_added s \<and>
         fetches (since s s1) = [l] \<and> posts (since s s1) = [] \<and> generations (since s s1) = []"
proof -
  let ?s0 = "emit (Parse url) s"
  have pf: "process_feed w url s = scan_entries w fd (pre @ e # rest) ?s0"
    using assms(1,2) by (simp add: process_feed_def call_def)
  have "all_seen ?s0 pre" using assms(3) by (simp add: all_seen_def emit_def)
  then have "scan_entries w fd (pre @ e # rest) ?s0 = scan_entries w fd (e # rest) ?s0"
    by (rule scan_entries_skip)
  also have "\<dots> = process_entry w fd e l ?s0"
    using assms(4,5) by (simp add: emit_def)
  also have "\<dots> = Return () s1"
    using assms(6,7,8) by (simp add: process_entry_def)
  finally have r: "process_feed w url s = Return () s1" using pf by simp
  obtain v evs where sc: "scrape_article_text w l ?s0 = Return v (?s0\<lparr>trace := trace ?s0 @ evs\<rparr>)"
    and ev: "posts evs = []" "generations evs = []" "fetches evs = [l]"
    using scrape_effect by blast
  from sc assms(7) have s1: "s1 = ?s0\<lparr>trace := trace ?s0 @ evs\<rparr>" by simp
  have "since s s1 = Parse url # evs" unfolding s1 by (simp add: since_def emit_def)
  with r ev assms(5) show ?thesis unfolding s1 by (simp add: emit_def)
qed

theorem extraction_absent_skip_witness:
  "process_feed no_text_world first_url start =
     Return () (start\<lparr>trace := [Parse first_url, FetchUrl old_link, Extract ''<html>'']\<rparr>) \<and>
   old_link \<notin> seen_articles start \<and>
   fetches (since start
      (start\<lparr>trace := [Parse first_url, FetchUrl old_link, Extract ''<html>'']\<rparr>)) = [old_link]"
  using extraction_absent_skip [of no_text_world start first_url newest_first_feed "[]" entry_old
          "[entry_mid, entry_new]" old_link "''Old''" None
          "start\<lparr>trace := [Parse first_url, FetchUrl old_link, Extract ''<html>'']\<rparr>"]
  by (simp add: model_defs input_defs no_text_world_def all_seen_def)

text \<open>
  C7, as the code has it. A cycle that reaches its end uploads the seen set if and only if
  the seen set differs from the set that was loaded, and then uploads it once, whole. A
  cycle that ends by an exception uploads nothing and leaves the remote file as it is,
  whatever it added. A cycle whose seen set is unchanged, however it ends, uploads nothing
  and leaves the remote file as it is; this is so when every entry of every configured feed
  is already seen.
\<close>

theorem save_iff_added:
  assumes g: "get_seen_links w s = Return S s1"
  shows "(\<forall>s'. run_pipeline w s = Return () s' \<longrightarrow>
            (uploads (since s s') \<noteq> [] \<longleftrightarrow> seen_articles s' \<noteq> S) \<and>
            (seen_articles s' \<noteq> S \<longrightarrow>
               uploads (since s s') = [write_links (iteration w (seen_articles s'))])) \<and>
         (\<forall>e s'. run_pipeline w s = Raise e s' \<longrightarrow>
            uploads (since s s') = [] \<and> remote s' = remote s) \<and>
         (seen_articles (final_state (run_pipeline w s)) = S \<longrightarrow>
            uploads (since s (final_state (run_pipeline w s))) = [] \<and>
            remote (final_state (run_pipeline w s)) = remote s) \<and>
         ((\<forall>url \<in> set RSS_URLS. \<forall>t fd. feedparser_parse w t url = Inr fd \<longrightarrow>
              (\<forall>e \<in> set (entries fd). \<exists>l. link e = Some l \<and> l \<in> S)) \<longrightarrow>
            seen_articles (final_state (run_pipeline w s)) = S \<and>
            uploads (since s (final_state (run_pipeline w s))) = [] \<and>
            remote (final_state (run_pipeline w s)) = remote s)"
proof -
  let ?r = "run_pipeline w s"
  obtain S' s1' evs where g': "get_seen_links w s = Return S' s1'"
    and tr: "trace (final_state ?r) = trace s @ evs"
    and n: "\<forall>m \<in> set (posts evs). msg_link m \<notin> S'"
    and sn: "seen_articles (final_state ?r) = S' \<union> msg_link ` set (posts evs)"
    and up: "uploads evs =
       (if (\<exists>s'. ?r = Return () s') \<and> posts evs \<noteq> []
        then [write_links (iteration w (seen_articles (final_state ?r)))] else [])"
    and rm: "uploads evs = [] \<longrightarrow> remote (final_state ?r) = remote s"
    using run_pipeline_summary by blast
  have S: "S' = S" "s1' = s1" using g g' by simp_all
  have si: "since s (final_state ?r) = evs" using tr by (rule since_append)
  have changed: "seen_articles (final_state ?r) \<noteq> S \<longleftrightarrow> posts evs \<noteq> []"
  proof
    assume "seen_articles (final_state ?r) \<noteq> S"
    then show "posts evs \<noteq> []" using sn S by auto
  next
    assume "posts evs \<noteq> []"
    then obtain m where m: "m \<in> set (posts evs)" by (cases "posts evs") auto
    with n S have "msg_link m \<notin> S" by simp
    moreover from m sn have "msg_link m \<in> seen_articles (final_state ?r)" by simp
    ultimately show "seen_articles (final_state ?r) \<noteq> S" by auto
  qed
  have a: "(uploads (since s s') \<noteq> [] \<longleftrightarrow> seen_articles s' \<noteq> S) \<and>
           (seen_articles s' \<noteq> S \<longrightarrow>
               uploads (since s s') = [write_links (iteration w (seen_articles s'))])"
    if r: "?r = Return () s'" for s'
  proof -
    have f: "final_state ?r = s'" using r by simp
    have "\<exists>s'. ?r = Return () s'" using r by blast
    with up have "uploads evs = (if posts evs \<noteq> [] then [write_links (iteration w (seen_articles s'))] else [])"
      unfolding f by simp
    with changed si show ?thesis unfolding f by auto
  qed
  have x: "uploads (since s s') = [] \<and> remote s' = remote s"
    if r: "?r = Raise e s'" for e s'
  proof -
    have f: "final_state ?r = s'" using r by simp
    have "\<not> (\<exists>s'. ?r = Return () s')" using r by simp
    with up have "uploads evs = []" by simp
    with rm si show ?thesis unfolding f by simp
  qed
  have b: "uploads (since s (final_state ?r)) = [] \<and> remote (final_state ?r) = remote s"
    if "seen_articles (final_state ?r) = S"
  proof -
    from that changed have "posts evs = []" by simp
    with up have "uploads evs = []" by simp
    with rm si show ?thesis by simp
  qed
  have c: "seen_articles (final_state ?r) = S"
    if h: "\<forall>url \<in> set RSS_URLS. \<forall>t fd. feedparser_parse w t url = Inr fd \<longrightarrow>
              (\<forall>e \<in> set (entries fd). \<exists>l. link e = Some l \<and> l \<in> S)"
  proof -
    let ?s1 = "s1\<lparr>seen_articles := S, new_links_added := False\<rparr>"
    have "\<forall>url \<in> set RSS_URLS. \<forall>t fd. feedparser_parse w t url = Inr fd \<longrightarrow>
            all_seen ?s1 (entries fd)"
      using h by (simp add: all_seen_def)
    from check_feeds_nothing_new[OF this] obtain e1 where
      f: "final_state (check_feeds w RSS_URLS ?s1) = ?s1\<lparr>trace := trace ?s1 @ e1\<rparr>"
      by blast
    have rp: "?r = and_then (check_feeds w RSS_URLS ?s1)
        (\<lambda>u s2. if new_links_added s2 then update_seen_links w (seen_articles s2) s2
                 else Return () s2)"
      using g by (simp add: run_pipeline_def)
    show ?thesis
    proof (cases "check_feeds w RSS_URLS ?s1")
      case (Raise ex s2)
      with f rp show ?thesis by simp
    next
      case (Return u s2)
      with f rp show ?thesis by simp
    qed
  qed
  show ?thesis using a x b c by blast
qed

theorem save_iff_added_witness:
  "get_seen_links (demo_world old_only_feed) seen_old =
     Return {old_link} (seen_old\<lparr>trace := [Download]\<rparr>) \<and>
   seen_articles (final_state (run_pipeline (demo_world old_only_feed) seen_old)) = {old_link} \<and>
   uploads (since seen_old (final_state (run_pipeline (demo_world old_only_feed) seen_old))) = [] \<and>
   remote (final_state (run_pipeline (demo_world old_only_feed) seen_old)) = remote seen_old \<and>
   seen_articles (final_state (run_pipeline (demo_world newest_first_feed) seen_old))
     = {mid_link, old_link} \<and>
   uploads (since seen_old (final_state (run_pipeline (demo_world newest_first_feed) seen_old)))
     = [write_links [old_link, mid_link]] \<and>
   returned (run_pipeline untitled_world seen_old) = None \<and>
   uploads (since seen_old (final_state (run_pipeline untitled_world seen_old))) = []"
  using save_iff_added [of "demo_world old_only_feed" seen_old "{old_link}"
           "seen_old\<lparr>trace := [Download]\<rparr>"]
        save_iff_added [of "demo_world newest_first_feed" seen_old "{old_link}"
           "seen_old\<lparr>trace := [Download]\<rparr>"]
        save_iff_added [of untitled_world seen_old "{old_link}"
           "seen_old\<lparr>trace := [Download]\<rparr>"]
  by (simp add: model_defs input_defs since_def seen_old_def old_only_feed_def
       untitled_world_def untitled_feed_def returned_def
       read_links_def write_links_def strip_def isspace_def LF_def CR_def)

text \<open>
  A cycle that notifies an entry of the first feed and then meets an entry without a title
  in the second feed ends by an exception: the link was added and nothing is saved.
\<close>

theorem added_not_saved_counterexample:
  "returned (get_seen_links untitled_world start) = Some {} \<and>
   run_pipeline untitled_world start =
     Raise (Exception ''AttributeError: title'')
       \<lparr>trace = [Download, Logged (Exception ''EntryNotFoundError''), Parse first_url,
                 FetchUrl old_link, Extract ''<html>'', Generate ''summarize: text'',
                 Post \<lparr>msg_source = ''Example'', msg_title = ''Old'', msg_summary = ''summary'',
                       msg_link = old_link\<rparr>,
                 Parse ''https://feeds.feedburner.com/NDTV-Latest''],
        remote = None, seen_articles = {old_link}, new_links_added = True\<rparr> \<and>
   seen_articles (final_state (run_pipeline untitled_world start)) = {old_link} \<and>
   uploads (since start (final_state (run_pipeline untitled_world start))) = [] \<and>
   remote (final_state (run_pipeline untitled_world start)) = None"
  by (simp add: model_defs input_defs since_def untitled_world_def untitled_feed_def returned_def)

text \<open>
  C10. The links of the notifications attempted in one cycle are pairwise distinct, and the
  feeds checked from a given state never notify a link that is in the seen set of that
  state, in particular one that an earlier feed of the same cycle has added.
\<close>

theorem no_duplicate_notifications:
  "distinct (map msg_link (posts (since s (final_state (run_pipeline w s))))) \<and>
   (\<forall>m \<in> set (posts (since s1 (final_state (check_feeds w urls s1)))).
       msg_link m \<notin> seen_articles s1)"
proof -
  obtain S s' evs where tr: "trace (final_state (run_pipeline w s)) = trace s @ evs"
    and d: "distinct (map msg_link (posts evs))"
    using run_pipeline_summary by blast
  have si: "since s (final_state (run_pipeline w s)) = evs" using tr by (rule since_append)
  obtain evs1 where c: "cycle_step s1 (final_state (check_feeds w urls s1)) evs1"
    using check_feeds_step by blast
  then have "trace (final_state (check_feeds w urls s1)) = trace s1 @ evs1"
    by (simp add: cycle_step_def)
  then have si1: "since s1 (final_state (check_feeds w urls s1)) = evs1" by (rule since_append)
  have "\<forall>m \<in> set (posts evs1). msg_link m \<notin> seen_articles s1"
    using c by (simp add: cycle_step_def)
  then show ?thesis using d unfolding si si1 by blast
qed

theorem no_duplicate_notifications_witness:
  "map msg_link (posts (since start (final_state (run_pipeline shared_world start)))) =
     [old_link, mid_link, new_link] \<and>
   seen_articles rerun = {old_link} \<and>
   map msg_link (posts (since rerun (final_state (check_feeds shared_world RSS_URLS rerun)))) =
     [mid_link, new_link]"
  using no_duplicate_notifications [of start shared_world rerun RSS_URLS]
  by (simp add: model_defs input_defs shared_world_def rerun_def since_def)

section \<open>The durable store\<close>

text \<open>
  C5, as the code has it. Where the upload and the download that follows succeed and every
  identifier of the set is one that \<^verbatim>\<open>strip()\<close> leaves unchanged and that contains no line
  break, saving a set and loading again returns that set, in whatever order the set is
  written; the file written holds one identifier on each line and replaces the remote
  content.
\<close>

theorem save_then_load_roundtrip:
  assumes "set (iteration w S) = S"
    and "\<forall>l \<in> S. clean_identifier l"
    and "hub_error w (now s) = None"
    and "hub_error w (Suc (now s)) = None"
  shows "\<exists>s1 s2. update_seen_links w S s = Return () s1 \<and>
           remote s1 = Some (write_links (iteration w S)) \<and>
           get_seen_links w s1 = Return S s2"
proof -
  let ?c = "write_links (iteration w S)"
  let ?s1 = "s\<lparr>trace := trace s @ [Upload ?c], remote := Some ?c\<rparr>"
  have u: "update_seen_links w S s = Return () ?s1"
    using assms(3) by (simp add: update_seen_links_def upload_file_def emit_def)
  have n: "now ?s1 = Suc (now s)" by (simp add: now_def)
  have "\<forall>l \<in> set (iteration w S). clean_identifier l" using assms(1,2) by simp
  then have "read_links ?c = S" using read_links_write_links assms(1) by simp
  then have "get_seen_links w ?s1 = Return S (emit Download ?s1)"
    using assms(4) unfolding get_seen_links_def hf_hub_download_def n by simp
  with u show ?thesis by simp
qed

theorem save_then_load_roundtrip_witness:
  "set (iteration (demo_world empty_feed) {old_link, mid_link}) = {old_link, mid_link} \<and>
   clean_identifier old_link \<and> clean_identifier mid_link \<and>
   remote (final_state (update_seen_links (demo_world empty_feed) {old_link, mid_link} start)) =
     Some (write_links [old_link, mid_link]) \<and>
   returned (get_seen_links (demo_world empty_feed)
               (final_state (update_seen_links (demo_world empty_feed) {old_link, mid_link} start))) =
     Some {old_link, mid_link}"
  using save_then_load_roundtrip [of "demo_world empty_feed" "{old_link, mid_link}" start]
  by (auto simp add: model_defs input_defs returned_def clean_identifier_def
        read_links_def write_links_def strip_def isspace_def LF_def CR_def)

text \<open>
  An identifier with a leading blank comes back without it.
\<close>

theorem roundtrip_counterexample:
  "iteration padded_world {padded_link} = [padded_link] \<and>
   remote (final_state (update_seen_links padded_world {padded_link} start)) =
     Some (write_links [padded_link]) \<and>
   returned (get_seen_links padded_world
               (final_state (update_seen_links padded_world {padded_link} start))) =
     Some {old_link} \<and>
   {old_link} \<noteq> {padded_link}"
  by (simp add: model_defs input_defs padded_world_def padded_link_def returned_def
        read_links_def write_links_def strip_def isspace_def LF_def CR_def)

text \<open>
  C8. Loading never raises, and where the remote file does not exist or the download
  fails, it returns the empty set and leaves the remote file as it is.
\<close>

theorem load_never_raises:
  "(\<exists>S s'. get_seen_links w s = Return S s') \<and>
   (remote s = None \<or> hub_error w (now s) \<noteq> None \<longrightarrow>
      (\<exists>s'. get_seen_links w s = Return {} s' \<and> remote s' = remote s))"
proof -
  obtain S evs where g: "get_seen_links w s = Return S (s\<lparr>trace := trace s @ evs\<rparr>)"
    and e: "remote s = None \<or> hub_error w (now s) \<noteq> None \<longrightarrow> S = {}"
    using get_seen_links_effect by blast
  show ?thesis using g e by auto
qed

theorem load_never_raises_witness:
  "remote start = None \<and>
   get_seen_links (demo_world empty_feed) start =
     Return {} (start\<lparr>trace := [Download, Logged (Exception ''EntryNotFoundError'')]\<rparr>)"
  using load_never_raises [of "demo_world empty_feed" start]
  by (simp add: model_defs input_defs)

section \<open>The scheduler loop\<close>

text \<open>
  C9. Every turn of the loop completes, whatever the cycle raises: when the cycle raises,
  the turn records the exception and sleeps 60 seconds; when it returns, the turn sleeps
  1800 seconds. The loop goes on from the state that the turn leaves: the next turn runs a
  cycle from there, the download of the seen links being the first call after the sleep,
  and completes in its turn. After any number of turns the loop is still running and has
  started that many cycles.
\<close>

theorem loop_survival:
  "\<exists>s1 s2 rest.
     loop_body w s = Return () s1 \<and>
     (\<forall>e se. run_pipeline w s = Raise e se \<longrightarrow>
        s1 = se\<lparr>trace := trace se @ [Logged e, Sleep 60]\<rparr>) \<and>
     (\<forall>sr. run_pipeline w s = Return () sr \<longrightarrow>
        s1 = sr\<lparr>trace := trace sr @ [Sleep 1800]\<rparr>) \<and>
     background_task w (Suc n) s = background_task w n s1 \<and>
     trace (final_state (run_pipeline w s1)) = trace s1 @ Download # rest \<and>
     loop_body w s1 = Return () s2 \<and>
     (trace s2 = trace (final_state (run_pipeline w s1)) @ [Sleep 1800] \<or>
      (\<exists>e. trace s2 = trace (final_state (run_pipeline w s1)) @ [Logged e, Sleep 60])) \<and>
     background_task w (Suc (Suc n)) s = background_task w n s2 \<and>
     (\<exists>s'. background_task w n s = Return () s' \<and>
           cycles_started (trace s') = cycles_started (trace s) + n)"
proof -
  obtain s1 where l1: "loop_body w s = Return () s1"
    and r1: "\<forall>e se. run_pipeline w s = Raise e se \<longrightarrow>
               s1 = se\<lparr>trace := trace se @ [Logged e, Sleep 60]\<rparr>"
    and q1: "\<forall>sr. run_pipeline w s = Return () sr \<longrightarrow> s1 = sr\<lparr>trace := trace sr @ [Sleep 1800]\<rparr>"
    using loop_body_effect[of w s] by blast
  obtain s2 where l2: "loop_body w s1 = Return () s2"
    and r2: "\<forall>e se. run_pipeline w s1 = Raise e se \<longrightarrow>
               s2 = se\<lparr>trace := trace se @ [Logged e, Sleep 60]\<rparr>"
    and q2: "\<forall>sr. run_pipeline w s1 = Return () sr \<longrightarrow> s2 = sr\<lparr>trace := trace sr @ [Sleep 1800]\<rparr>"
    using loop_body_effect[of w s1] by blast
  obtain rest where st: "trace (final_state (run_pipeline w s1)) = trace s1 @ Download # rest"
    using run_pipeline_starts by blast
  have t2: "trace s2 = trace (final_state (run_pipeline w s1)) @ [Sleep 1800] \<or>
      (\<exists>e. trace s2 = trace (final_state (run_pipeline w s1)) @ [Logged e, Sleep 60])"
  proof (cases "run_pipeline w s1")
    case (Return u sr)
    with q2 show ?thesis by simp
  next
    case (Raise e se)
    with r2 show ?thesis by simp
  qed
  have b1: "background_task w (Suc n) s = background_task w n s1" using l1 by simp
  have b2: "background_task w (Suc (Suc n)) s = background_task w n s2" using l1 l2 by simp
  obtain s' where bt: "background_task w n s = Return () s'"
     "cycles_started (trace s') = cycles_started (trace s) + n"
    using background_task_effect by blast
  show ?thesis
    using l1 r1 q1 b1 st l2 t2 b2 bt by blast
qed

theorem loop_survival_witness:
  "run_pipeline broken_model_world start =
     Raise (Exception ''RuntimeError'')
       (start\<lparr>trace := [Download, Logged (Exception ''EntryNotFoundError''), Parse first_url,
                         FetchUrl old_link, Extract ''<html>'', Generate ''summarize: text'']\<rparr>) \<and>
   loop_body broken_model_world start =
     Return ()
       (start\<lparr>trace := [Download, Logged (Exception ''EntryNotFoundError''), Parse first_url,
                         FetchUrl old_link, Extract ''<html>'', Generate ''summarize: text'',
                         Logged (Exception ''RuntimeError''), Sleep 60]\<rparr>) \<and>
   background_task broken_model_world 2 start =
     Return ()
       (start\<lparr>trace := [Download, Logged (Exception ''EntryNotFoundError''), Parse first_url,
                         FetchUrl old_link, Extract ''<html>'', Generate ''summarize: text'',
                         Logged (Exception ''RuntimeError''), Sleep 60,
                         Download, Logged (Exception ''EntryNotFoundError''), Parse first_url,
                         FetchUrl old_link, Extract ''<html>'', Generate ''summarize: text'',
                         Logged (Exception ''RuntimeError''), Sleep 60]\<rparr>) \<and>
   cycles_started (trace (final_state (background_task broken_model_world 2 start))) = 2"
  using loop_survival [of broken_model_world start 0]
  by (simp add: model_defs input_defs broken_model_world_def numeral_2_eq_2
        cycles_started_def)

section \<open>Starting the background thread\<close>

text \<open>
  C4. The script starts one thread for each session and not one for the process: after
  any sequence of runs, the number of threads started is the number of distinct sessions
  that ran the script. Within one session the thread is started once, however often the
  script runs again; a second session of the same process finds its own
  \<^verbatim>\<open>st.session_state\<close> empty and starts a second thread.
\<close>

theorem one_thread_for_each_session:
  "length (threads (fold script_run sessions process_start)) = card (set sessions) \<and>
   threads (script_run 0 (script_run 0 process_start)) = [0] \<and>
   threads (script_run 1 (script_run 0 (script_run 0 process_start))) = [0, 1]"
proof -
  have "length (threads (fold script_run sessions process_start)) = card ({} \<union> set sessions)"
    by (rule script_runs) (simp_all add: process_start_def)
  then show ?thesis by (simp add: script_run_def process_start_def Let_def)
qed

end
